theory Spec2Isabelle
  imports Complex_Main "HOL-Library.AList"
begin

section \<open>The GloVe embedding index of the word-vector notebook\<close>

text \<open>
  The notebook \<^verbatim>\<open>NLP_word_vectors_classification.ipynb\<close> loads a text file of
  word vectors into four global variables (\<^verbatim>\<open>embeddings_index\<close>, \<^verbatim>\<open>inv_index\<close>,
  \<^verbatim>\<open>glove_embeddings\<close>, \<^verbatim>\<open>glove_embeddings_normed\<close>) and queries them with
  \<^verbatim>\<open>get_emb\<close>, \<^verbatim>\<open>get_normed_emb\<close> and \<^verbatim>\<open>most_similar\<close>. The globals become one
  record, every Python exception becomes a value of \<open>py_error\<close>, and the numpy calls
  are written out as list functions.
\<close>

subsection \<open>Numbers\<close>

text \<open>
  A float32 value is a real number that the format represents, or one of the three IEEE
  special values. The sign of zero is not kept: no result of the code depends on it
  (the only divisors are norms, which are not negative, and \<^verbatim>\<open>-0.0\<close> equals
  \<^verbatim>\<open>0.0\<close> in every comparison).
\<close>

datatype npfloat = Fin real | PInf | NInf | NaN

text \<open>
  Rounding to float32, to the nearest value and to the even one of two nearest. The
  exponent of a magnitude is searched from 127 downwards and stops at -126, the
  exponent of the subnormal numbers; the quantum is 23 binary places below it. A
  rounded magnitude of \<open>2 ^ 128\<close> or more is an overflow and gives an infinity.
\<close>

fun expo_from :: "nat \<Rightarrow> int \<Rightarrow> real \<Rightarrow> int" where
  "expo_from 0 e a = e"
| "expo_from (Suc n) e a = (if 2 powi e \<le> a then e else expo_from n (e - 1) a)"

definition expo :: "real \<Rightarrow> int" where
  "expo a = expo_from 253 127 a"

definition round_even :: "real \<Rightarrow> int" where
  "round_even x =
     (let f = \<lfloor>x\<rfloor>; d = x - of_int f
      in if d < 1 / 2 then f else if 1 / 2 < d then f + 1 else if even f then f else f + 1)"

definition round32 :: "real \<Rightarrow> npfloat" where
  "round32 r =
     (let q = 2 powi (expo \<bar>r\<bar> - 23); y = of_int (round_even (r / q)) * q
      in if 2 powi 128 \<le> \<bar>y\<bar> then (if 0 < r then PInf else NInf) else Fin y)"

text \<open>
  The four operations the code uses. On finite operands each is the exact result
  rounded to float32, as IEEE 754 prescribes; a division by zero and the operations on
  the special values follow IEEE 754 too, which is what numpy does (it warns, it does
  not raise).
\<close>

fun fadd :: "npfloat \<Rightarrow> npfloat \<Rightarrow> npfloat" where
  "fadd NaN y = NaN"
| "fadd x NaN = NaN"
| "fadd PInf NInf = NaN"
| "fadd NInf PInf = NaN"
| "fadd PInf y = PInf"
| "fadd x PInf = PInf"
| "fadd NInf y = NInf"
| "fadd x NInf = NInf"
| "fadd (Fin a) (Fin b) = round32 (a + b)"

fun fmul :: "npfloat \<Rightarrow> npfloat \<Rightarrow> npfloat" where
  "fmul NaN y = NaN"
| "fmul x NaN = NaN"
| "fmul (Fin a) (Fin b) = round32 (a * b)"
| "fmul (Fin a) PInf = (if a = 0 then NaN else if 0 < a then PInf else NInf)"
| "fmul (Fin a) NInf = (if a = 0 then NaN else if 0 < a then NInf else PInf)"
| "fmul PInf (Fin b) = (if b = 0 then NaN else if 0 < b then PInf else NInf)"
| "fmul NInf (Fin b) = (if b = 0 then NaN else if 0 < b then NInf else PInf)"
| "fmul PInf PInf = PInf"
| "fmul PInf NInf = NInf"
| "fmul NInf PInf = NInf"
| "fmul NInf NInf = PInf"

fun fdiv :: "npfloat \<Rightarrow> npfloat \<Rightarrow> npfloat" where
  "fdiv NaN y = NaN"
| "fdiv x NaN = NaN"
| "fdiv (Fin a) (Fin b) =
     (if b = 0 then (if a = 0 then NaN else if 0 < a then PInf else NInf)
      else round32 (a / b))"
| "fdiv (Fin a) PInf = Fin 0"
| "fdiv (Fin a) NInf = Fin 0"
| "fdiv PInf (Fin b) = (if b < 0 then NInf else PInf)"
| "fdiv NInf (Fin b) = (if b < 0 then PInf else NInf)"
| "fdiv PInf PInf = NaN"
| "fdiv PInf NInf = NaN"
| "fdiv NInf PInf = NaN"
| "fdiv NInf NInf = NaN"

fun fsqrt :: "npfloat \<Rightarrow> npfloat" where
  "fsqrt NaN = NaN"
| "fsqrt PInf = PInf"
| "fsqrt NInf = NaN"
| "fsqrt (Fin a) = (if a < 0 then NaN else round32 (sqrt a))"

fun fneg :: "npfloat \<Rightarrow> npfloat" where
  "fneg NaN = NaN"
| "fneg PInf = NInf"
| "fneg NInf = PInf"
| "fneg (Fin a) = Fin (- a)"

text \<open>
  The order numpy sorts floats by: \<^verbatim>\<open>a < b || (b != b && a == a)\<close>, so that NaN
  sorts after every number.
\<close>

fun np_lt :: "npfloat \<Rightarrow> npfloat \<Rightarrow> bool" where
  "np_lt NaN y = False"
| "np_lt x NaN = True"
| "np_lt PInf y = False"
| "np_lt x PInf = True"
| "np_lt x NInf = False"
| "np_lt NInf y = True"
| "np_lt (Fin a) (Fin b) = (a < b)"

definition np_le :: "npfloat \<Rightarrow> npfloat \<Rightarrow> bool" where
  "np_le a b = (\<not> np_lt b a)"

fun is_fin :: "npfloat \<Rightarrow> bool" where
  "is_fin (Fin a) = True"
| "is_fin x = False"

type_synonym vec = "npfloat list"

definition fsum :: "vec \<Rightarrow> npfloat" where
  "fsum xs = foldl fadd (Fin 0) xs"

text \<open>
  \<^verbatim>\<open>np.dot\<close> of two 1-d arrays of one length. The products are added from the left,
  starting from 0. (numpy may add them in another order; for arrays of two elements, as
  in the examples below, every order gives the same sum.)
\<close>

definition dot :: "vec \<Rightarrow> vec \<Rightarrow> npfloat" where
  "dot xs ys = fsum (map2 fmul xs ys)"

text \<open>
  \<^verbatim>\<open>np.linalg.norm\<close> of a 1-d array, and of each row of a matrix with \<^verbatim>\<open>axis=-1\<close>:
  the square root of the sum of the squares, which are added from the left like the
  products of \<^verbatim>\<open>np.dot\<close>.
\<close>

definition l2norm :: "vec \<Rightarrow> npfloat" where
  "l2norm xs = fsqrt (fsum (map (\<lambda>x. fmul x x) xs))"

text \<open>An array divided by a scalar.\<close>

definition vdiv :: "vec \<Rightarrow> npfloat \<Rightarrow> vec" where
  "vdiv xs n = map (\<lambda>x. fdiv x n) xs"

subsection \<open>Library calls\<close>

text \<open>
  \<^verbatim>\<open>str.split()\<close> with no argument: the maximal runs of non-whitespace characters.
  A line is the decoded text of one line of the file, taken to be ASCII; the whitespace
  characters are the ASCII ones of Python (space, \<^verbatim>\<open>\t \n \v \f \r\<close>, and the
  separators 0x1C to 0x1F). A file is the list of its lines.
\<close>

definition is_space :: "char \<Rightarrow> bool" where
  "is_space c = (c \<in> set [CHR '' '', CHR 0x09, CHR 0x0A, CHR 0x0B, CHR 0x0C, CHR 0x0D,
                           CHR 0x1C, CHR 0x1D, CHR 0x1E, CHR 0x1F])"

fun split_from :: "string \<Rightarrow> string \<Rightarrow> string list" where
  "split_from cur [] = (if cur = [] then [] else [cur])"
| "split_from cur (c # cs) =
     (if is_space c then (if cur = [] then split_from [] cs else cur # split_from [] cs)
      else split_from (cur @ [c]) cs)"

definition split :: "string \<Rightarrow> string list" where
  "split s = split_from [] s"

text \<open>
  \<^verbatim>\<open>np.asarray(values[1:], dtype='float32')\<close> converts every token or raises
  ValueError. The conversion of one token is a parameter \<open>pf\<close> of the model:
  \<open>pf tok = None\<close> when the token is not a float literal.
\<close>

definition asarray :: "(string \<Rightarrow> npfloat option) \<Rightarrow> string list \<Rightarrow> vec option" where
  "asarray pf toks = (if list_all (\<lambda>t. pf t \<noteq> None) toks then Some (map (\<lambda>t. the (pf t)) toks) else None)"

text \<open>
  A conversion used for the examples: an optional sign, then \<^verbatim>\<open>inf\<close>, \<^verbatim>\<open>nan\<close> or
  decimal digits with an optional fraction, rounded to float32. (Python accepts more,
  for example exponents, and numpy rounds to a double first, which gives the same
  float32 for the tokens used below.)
\<close>

definition digit_of :: "char \<Rightarrow> nat option" where
  "digit_of c = (let n = (of_char c :: nat) in if 48 \<le> n \<and> n \<le> 57 then Some (n - 48) else None)"

fun digits_val :: "nat \<Rightarrow> string \<Rightarrow> nat option" where
  "digits_val acc [] = Some acc"
| "digits_val acc (c # cs) =
     (case digit_of c of None \<Rightarrow> None | Some d \<Rightarrow> digits_val (10 * acc + d) cs)"

definition unsigned_of_token :: "string \<Rightarrow> npfloat option" where
  "unsigned_of_token s =
     (if s = ''inf'' then Some PInf
      else if s = ''nan'' then Some NaN
      else
        (let ip = takeWhile (\<lambda>c. c \<noteq> CHR ''.'') s;
             fp = drop 1 (dropWhile (\<lambda>c. c \<noteq> CHR ''.'') s)
         in if ip = [] \<and> fp = [] then None
            else (case digits_val 0 ip of
                    None \<Rightarrow> None
                  | Some i \<Rightarrow>
                      (case digits_val 0 fp of
                         None \<Rightarrow> None
                       | Some f \<Rightarrow> Some (round32 (real i + real f / 10 ^ length fp))))))"

definition float_of_token :: "string \<Rightarrow> npfloat option" where
  "float_of_token s =
     (case s of
        [] \<Rightarrow> None
      | c # r \<Rightarrow>
          if c = CHR ''-'' then map_option fneg (unsigned_of_token r)
          else if c = CHR ''+'' then unsigned_of_token r
          else unsigned_of_token s)"

text \<open>
  \<^verbatim>\<open>np.argsort\<close> is a parameter too: its default kind is not stable, and which index
  comes first among equal values depends on the numpy build. What every argsort does
  is \<open>argsort_spec\<close>: the result lists each index once, in non-decreasing order of the
  values (NaN last).
\<close>

definition argsort_spec :: "(vec \<Rightarrow> nat list) \<Rightarrow> bool" where
  "argsort_spec srt =
     (\<forall>v. distinct (srt v) \<and> set (srt v) = {0..<length v} \<and>
          sorted_wrt (\<lambda>i j. np_le (v ! i) (v ! j)) (srt v))"

text \<open>
  The argsort of the examples is numpy's insertion sort, which its quicksort runs on
  arrays of at most 16 elements: each index in turn is put behind the indices whose
  value is not greater.
\<close>

fun insert_idx :: "vec \<Rightarrow> nat \<Rightarrow> nat list \<Rightarrow> nat list" where
  "insert_idx v i [] = [i]"
| "insert_idx v i (j # js) =
     (if np_lt (v ! i) (v ! j) then i # j # js else j # insert_idx v i js)"

definition np_argsort :: "vec \<Rightarrow> nat list" where
  "np_argsort v = foldl (\<lambda>acc i. insert_idx v i acc) [] [0..<length v]"

text \<open>A Python slice \<^verbatim>\<open>xs[:n]\<close>; a negative \<open>n\<close> counts from the end.\<close>

definition slice_to :: "int \<Rightarrow> 'a list \<Rightarrow> 'a list" where
  "slice_to n xs = (if 0 \<le> n then take (nat n) xs else take (length xs - nat (- n)) xs)"

subsection \<open>Loading the file\<close>

datatype py_error = IndexError | ValueError | TypeError | KeyError

text \<open>
  The loop over the lines of the file. The state is \<^verbatim>\<open>embeddings_index\<close> (a dict, kept
  as an association list: an assignment to a present key overwrites its value),
  \<^verbatim>\<open>embeddings_vectors\<close> and \<^verbatim>\<open>word_idx\<close>. \<^verbatim>\<open>values[0]\<close> raises IndexError on a line
  without tokens, \<^verbatim>\<open>np.asarray\<close> raises ValueError on a token that is not a float.
\<close>

fun load_loop :: "(string \<Rightarrow> npfloat option) \<Rightarrow> string list \<Rightarrow>
    (string \<times> nat) list \<times> vec list \<times> nat \<Rightarrow> py_error + (string \<times> nat) list \<times> vec list \<times> nat" where
  "load_loop pf [] st = Inr st"
| "load_loop pf (line # rest) (embeddings_index, embeddings_vectors, word_idx) =
     (case split line of
        [] \<Rightarrow> Inl IndexError
      | word # vals \<Rightarrow>
          (case asarray pf vals of
             None \<Rightarrow> Inl ValueError
           | Some vector \<Rightarrow>
               load_loop pf rest
                 (AList.update word word_idx embeddings_index,
                  embeddings_vectors @ [vector],
                  word_idx + 1)))"

text \<open>
  \<^verbatim>\<open>np.vstack\<close> raises ValueError on an empty list and on arrays of different lengths.
\<close>

definition vstack :: "vec list \<Rightarrow> py_error + vec list" where
  "vstack vs =
     (case vs of
        [] \<Rightarrow> Inl ValueError
      | v # rest \<Rightarrow> if list_all (\<lambda>u. length u = length v) rest then Inr vs else Inl ValueError)"

record glove =
  embeddings_index :: "(string \<times> nat) list"
  inv_index :: "(nat \<times> string) list"
  glove_embeddings :: "vec list"
  glove_embeddings_normed :: "vec list"

text \<open>
  The two loading cells in sequence: the loop, the inverse dict
  \<^verbatim>\<open>{v: k for k, v in embeddings_index.items()}\<close>, the stacked matrix and its copy with
  every row divided by its norm. An exception in either cell ends the loading: the
  result is the exception, and what the cells had assigned before it is not an index.
\<close>

definition load :: "(string \<Rightarrow> npfloat option) \<Rightarrow> string list \<Rightarrow> py_error + glove" where
  "load pf lines =
     (case load_loop pf lines ([], [], 0) of
        Inl e \<Rightarrow> Inl e
      | Inr (ei, ev, word_idx) \<Rightarrow>
          (case vstack ev of
             Inl e \<Rightarrow> Inl e
           | Inr m \<Rightarrow>
               Inr \<lparr>embeddings_index = ei,
                    inv_index = map (\<lambda>(k, v). (v, k)) ei,
                    glove_embeddings = m,
                    glove_embeddings_normed = map (\<lambda>row. vdiv row (l2norm row)) m\<rparr>))"

subsection \<open>Lookups\<close>

text \<open>
  Both lookups return \<^verbatim>\<open>None\<close> for a word that is not a key, and the row otherwise;
  a row index outside the matrix raises IndexError.
\<close>

definition get_emb :: "glove \<Rightarrow> string \<Rightarrow> py_error + vec option" where
  "get_emb g word =
     (case map_of (embeddings_index g) word of
        None \<Rightarrow> Inr None
      | Some idx \<Rightarrow>
          if idx < length (glove_embeddings g) then Inr (Some (glove_embeddings g ! idx))
          else Inl IndexError)"

definition get_normed_emb :: "glove \<Rightarrow> string \<Rightarrow> py_error + vec option" where
  "get_normed_emb g word =
     (case map_of (embeddings_index g) word of
        None \<Rightarrow> Inr None
      | Some idx \<Rightarrow>
          if idx < length (glove_embeddings_normed g)
          then Inr (Some (glove_embeddings_normed g ! idx))
          else Inl IndexError)"

subsection \<open>The similarity query\<close>

text \<open>
  The argument \<^verbatim>\<open>words\<close> is a string or a list of strings. The variable
  \<^verbatim>\<open>query_emb\<close> holds the Python integer 0 at first and an array later.
\<close>

datatype query = Single string | Multi "string list"

datatype emb = Scalar npfloat | Arr vec

text \<open>
  \<^verbatim>\<open>query_emb += get_emb(word)\<close>: adding \<^verbatim>\<open>None\<close> raises TypeError. Adding an array
  to the integer makes a new array; adding an array to an array works in place on that
  new array (never on a row of the matrix), and broadcasts a one-element right operand.
\<close>

fun iadd :: "emb \<Rightarrow> vec option \<Rightarrow> py_error + emb" where
  "iadd q None = Inl TypeError"
| "iadd (Scalar s) (Some v) = Inr (Arr (map (fadd s) v))"
| "iadd (Arr a) (Some v) =
     (if length v = length a then Inr (Arr (map2 fadd a v))
      else if length v = 1 then Inr (Arr (map (\<lambda>x. fadd x (hd v)) a))
      else Inl ValueError)"

fun sum_embs :: "glove \<Rightarrow> emb \<Rightarrow> string list \<Rightarrow> py_error + emb" where
  "sum_embs g q [] = Inr q"
| "sum_embs g q (word # rest) =
     (case get_emb g word of
        Inl e \<Rightarrow> Inl e
      | Inr r \<Rightarrow> (case iadd q r of Inl e \<Rightarrow> Inl e | Inr q' \<Rightarrow> sum_embs g q' rest))"

text \<open>
  The value of \<^verbatim>\<open>query_emb\<close> when the line that normalises it is reached; \<^verbatim>\<open>None\<close>
  is what \<^verbatim>\<open>get_emb\<close> returned for a single unknown word.
\<close>

definition query_vector :: "glove \<Rightarrow> query \<Rightarrow> py_error + emb option" where
  "query_vector g words =
     (case words of
        Multi ws \<Rightarrow> (case sum_embs g (Scalar (Fin 0)) ws of Inl e \<Rightarrow> Inl e | Inr q \<Rightarrow> Inr (Some q))
      | Single w \<Rightarrow> (case get_emb g w of Inl e \<Rightarrow> Inl e | Inr r \<Rightarrow> Inr (map_option Arr r)))"

text \<open>
  \<^verbatim>\<open>np.dot(glove_embeddings_normed, query_emb)\<close> for an array \<^verbatim>\<open>query_emb\<close>: one dot
  product for each row, ValueError when the lengths do not agree.
\<close>

definition cosines_of :: "glove \<Rightarrow> vec \<Rightarrow> py_error + vec" where
  "cosines_of g q =
     (if list_all (\<lambda>row. length row = length q) (glove_embeddings_normed g)
      then Inr (map (\<lambda>row. dot row q) (glove_embeddings_normed g))
      else Inl ValueError)"

text \<open>
  The final list comprehension: \<^verbatim>\<open>inv_index[idx]\<close> raises KeyError for an index that
  is not a key, \<^verbatim>\<open>cosines[idx]\<close> raises IndexError outside the array.
\<close>

fun pretty :: "(nat \<times> string) list \<Rightarrow> vec \<Rightarrow> nat list \<Rightarrow> py_error + (string \<times> npfloat) list" where
  "pretty inv_idx cosines [] = Inr []"
| "pretty inv_idx cosines (idx # idxs) =
     (case map_of inv_idx idx of
        None \<Rightarrow> Inl KeyError
      | Some w \<Rightarrow>
          if idx < length cosines
          then (case pretty inv_idx cosines idxs of
                  Inl e \<Rightarrow> Inl e
                | Inr r \<Rightarrow> Inr ((w, cosines ! idx) # r))
          else Inl IndexError)"

text \<open>
  The part of \<^verbatim>\<open>most_similar\<close> after the query vector is known. For an array it is
  normalised, compared with every row, and the indices of the reversed argsort are cut
  to \<^verbatim>\<open>topn\<close>. \<^verbatim>\<open>None\<close> makes \<^verbatim>\<open>np.linalg.norm\<close> raise TypeError. The integer 0 (an
  empty list of words) becomes the scalar 0/0; the product with the matrix and its
  argsort are then two-dimensional, and the first \<^verbatim>\<open>inv_index[idx]\<close> raises TypeError
  because its key is an array.
\<close>

definition rank :: "(vec \<Rightarrow> nat list) \<Rightarrow> glove \<Rightarrow> emb option \<Rightarrow> int \<Rightarrow> py_error + (string \<times> npfloat) list" where
  "rank srt g q topn =
     (case q of
        None \<Rightarrow> Inl TypeError
      | Some (Scalar s) \<Rightarrow>
          if slice_to topn (rev (glove_embeddings_normed g)) = [] then Inr [] else Inl TypeError
      | Some (Arr v) \<Rightarrow>
          (case cosines_of g (vdiv v (l2norm v)) of
             Inl e \<Rightarrow> Inl e
           | Inr cosines \<Rightarrow> pretty (inv_index g) cosines (slice_to topn (rev (srt cosines)))))"

definition most_similar :: "(vec \<Rightarrow> nat list) \<Rightarrow> glove \<Rightarrow> query \<Rightarrow> int \<Rightarrow> py_error + (string \<times> npfloat) list" where
  "most_similar srt g words topn =
     (case query_vector g words of
        Inl e \<Rightarrow> Inl e
      | Inr q \<Rightarrow> rank srt g q topn)"

subsection \<open>Notions used in the statements\<close>

text \<open>The first token of every line: the word that the line defines.\<close>

definition first_words :: "string list \<Rightarrow> string list" where
  "first_words lines = map (\<lambda>l. hd (split l)) lines"

text \<open>A word is known when it is a key of \<^verbatim>\<open>embeddings_index\<close>.\<close>

definition known :: "glove \<Rightarrow> string \<Rightarrow> bool" where
  "known g w = (map_of (embeddings_index g) w \<noteq> None)"

text \<open>The words of a query.\<close>

fun query_words :: "query \<Rightarrow> string list" where
  "query_words (Single w) = [w]"
| "query_words (Multi ws) = ws"

text \<open>The elementwise sum of some vectors of one length, each component summed from 0.\<close>

definition vsum :: "vec list \<Rightarrow> vec" where
  "vsum vs = map (\<lambda>j. fsum (map (\<lambda>v. v ! j) vs)) [0..<length (hd vs)]"

text \<open>The elementwise average as the specification words it: the sum divided by the count.\<close>

definition spec_average :: "vec list \<Rightarrow> vec" where
  "spec_average vs = vdiv (vsum vs) (Fin (real (length vs)))"

text \<open>
  What the loading cells establish about the four globals: the matrix is not empty, its
  rows have one length, the normed matrix is its row-wise quotient, every value of
  \<^verbatim>\<open>embeddings_index\<close> is a row number, and \<^verbatim>\<open>inv_index\<close> is the swapped dict.
\<close>

definition wf_glove :: "glove \<Rightarrow> bool" where
  "wf_glove g =
     (glove_embeddings g \<noteq> [] \<and>
      list_all (\<lambda>r. length (hd (glove_embeddings g)) = length r) (glove_embeddings g) \<and>
      glove_embeddings_normed g = map (\<lambda>row. vdiv row (l2norm row)) (glove_embeddings g) \<and>
      list_all (\<lambda>(w, i). i < length (glove_embeddings g)) (embeddings_index g) \<and>
      inv_index g = map (\<lambda>(k, v). (v, k)) (embeddings_index g))"

subsection \<open>An example file\<close>

definition example_lines :: "string list" where
  "example_lines = [''cat 1 0'', ''dog 3 4'', ''car 0 1'']"

text \<open>
  The row of \<^verbatim>\<open>dog\<close> has the norm 5, and its normalised row holds the float32
  values nearest to 3/5 and 4/5.
\<close>

definition example_glove :: glove where
  "example_glove =
     \<lparr>embeddings_index = [(''cat'', 0), (''dog'', 1), (''car'', 2)],
      inv_index = [(0, ''cat''), (1, ''dog''), (2, ''car'')],
      glove_embeddings = [[Fin 1, Fin 0], [Fin 3, Fin 4], [Fin 0, Fin 1]],
      glove_embeddings_normed =
        [[Fin 1, Fin 0], [Fin (10066330 / 2 ^ 24), Fin (13421773 / 2 ^ 24)], [Fin 0, Fin 1]]\<rparr>"

text \<open>A file whose only row holds an infinity.\<close>

definition inf_glove :: glove where
  "inf_glove =
     \<lparr>embeddings_index = [(''x'', 0)], inv_index = [(0, ''x'')],
      glove_embeddings = [[PInf, Fin 0]], glove_embeddings_normed = [[NaN, Fin 0]]\<rparr>"


text \<open>A file that defines one word on two lines, as the loading cells leave it.\<close>

definition dup_glove :: glove where
  "dup_glove =
     \<lparr>embeddings_index = [(''a'', 1)], inv_index = [(1, ''a'')],
      glove_embeddings = [[Fin 1, Fin 0], [Fin 0, Fin 1]],
      glove_embeddings_normed = [[Fin 1, Fin 0], [Fin 0, Fin 1]]\<rparr>"

text \<open>
  Three more files as the loading cells leave them: two words with the same vector,
  two words with vectors of one direction, and a word with the zero vector.
\<close>

definition tie_glove :: glove where
  "tie_glove =
     \<lparr>embeddings_index = [(''a'', 0), (''b'', 1)], inv_index = [(0, ''a''), (1, ''b'')],
      glove_embeddings = [[Fin 1, Fin 0], [Fin 1, Fin 0]],
      glove_embeddings_normed = [[Fin 1, Fin 0], [Fin 1, Fin 0]]\<rparr>"


definition zero_glove :: glove where
  "zero_glove =
     \<lparr>embeddings_index = [(''zero'', 0), (''one'', 1)], inv_index = [(0, ''zero''), (1, ''one'')],
      glove_embeddings = [[Fin 0, Fin 0], [Fin 1, Fin 0]],
      glove_embeddings_normed = [[NaN, NaN], [Fin 1, Fin 0]]\<rparr>"

text \<open>
  An entry is scalable when it is a float32 value that is zero or of magnitude
  \<open>2 powi (- 63)\<close> at least, so that its square does not fall below the normal
  numbers of float32.
\<close>

definition scalable :: "npfloat \<Rightarrow> bool" where
  "scalable x = (case x of Fin r \<Rightarrow> round32 r = Fin r \<and> (r = 0 \<or> 2 powi (- 63) \<le> \<bar>r\<bar>) | _ \<Rightarrow> False)"

text \<open>
  A file with a word whose vector is near the largest float32 value: the token rounds
  to \<open>14791142 * 2 ^ 104\<close>, and the square of that value overflows, so the norm
  of the row is infinite and its normalised row is zero.
\<close>

definition big_glove :: glove where
  "big_glove =
     \<lparr>embeddings_index = [(''big'', 0), (''one'', 1)], inv_index = [(0, ''big''), (1, ''one'')],
      glove_embeddings = [[Fin (14791142 * 2 ^ 104), Fin 0], [Fin 1, Fin 0]],
      glove_embeddings_normed = [[Fin 0, Fin 0], [Fin 1, Fin 0]]\<rparr>"

section \<open>Sorting\<close>


lemma np_le_trans: "np_le a b \<Longrightarrow> np_le b c \<Longrightarrow> np_le a c"
  by (cases a; cases b; cases c) (simp_all add: np_le_def)

lemma np_le_total: "np_le a b \<or> np_le b a"
  by (cases a; cases b) (auto simp: np_le_def)

lemma np_lt_imp_le: "np_lt a b \<Longrightarrow> np_le a b"
  by (cases a; cases b) (auto simp: np_le_def)

lemma set_insert_idx: "set (insert_idx v i js) = insert i (set js)"
  by (induction js) auto

lemma distinct_insert_idx: "i \<notin> set js \<Longrightarrow> distinct js \<Longrightarrow> distinct (insert_idx v i js)"
  by (induction js) (auto simp: set_insert_idx)

lemma sorted_insert_idx:
  "sorted_wrt (\<lambda>i j. np_le (v ! i) (v ! j)) js \<Longrightarrow> sorted_wrt (\<lambda>i j. np_le (v ! i) (v ! j)) (insert_idx v i js)"
proof (induction js)
  case Nil
  then show ?case by simp
next
  case (Cons j js)
  show ?case
  proof (cases "np_lt (v ! i) (v ! j)")
    case True
    then have ij: "np_le (v ! i) (v ! j)" by (rule np_lt_imp_le)
    have "\<forall>k\<in>set js. np_le (v ! i) (v ! k)"
      using Cons.prems ij by (auto intro: np_le_trans)
    with True ij Cons.prems show ?thesis by simp
  next
    case False
    then have "np_le (v ! j) (v ! i)" by (simp add: np_le_def)
    with False Cons show ?thesis by (auto simp: set_insert_idx)
  qed
qed

lemma foldl_insert_idx:
  "distinct acc \<Longrightarrow> set acc \<inter> set is = {} \<Longrightarrow> distinct is \<Longrightarrow>
   sorted_wrt (\<lambda>i j. np_le (v ! i) (v ! j)) acc \<Longrightarrow>
   distinct (foldl (\<lambda>acc i. insert_idx v i acc) acc is) \<and>
   set (foldl (\<lambda>acc i. insert_idx v i acc) acc is) = set acc \<union> set is \<and>
   sorted_wrt (\<lambda>i j. np_le (v ! i) (v ! j)) (foldl (\<lambda>acc i. insert_idx v i acc) acc is)"
proof (induction "is" arbitrary: acc)
  case Nil
  then show ?case by simp
next
  case (Cons i "is")
  have "distinct (insert_idx v i acc)"
    using Cons.prems by (auto intro: distinct_insert_idx)
  moreover have "set (insert_idx v i acc) \<inter> set is = {}"
    using Cons.prems by (auto simp: set_insert_idx)
  moreover have "sorted_wrt (\<lambda>i j. np_le (v ! i) (v ! j)) (insert_idx v i acc)"
    using Cons.prems by (auto intro: sorted_insert_idx)
  ultimately show ?case
    using Cons.IH [of "insert_idx v i acc"] Cons.prems by (auto simp: set_insert_idx)
qed

lemma np_argsort_spec: "argsort_spec np_argsort"
  unfolding argsort_spec_def np_argsort_def
  using foldl_insert_idx [of "[]"] by auto

section \<open>Loading\<close>

lemma update_fresh: "k \<notin> fst ` set al \<Longrightarrow> AList.update k v al = al @ [(k, v)]"
  by (induction al) auto

lemma load_loop_Inr:
  "load_loop pf lines (ei, ev, n) = Inr (ei', ev', n') \<Longrightarrow>
     n' = n + length lines \<and>
     ev' = ev @ map (\<lambda>l. map (\<lambda>t. the (pf t)) (tl (split l))) lines \<and>
     (\<forall>l\<in>set lines. split l \<noteq> [] \<and> list_all (\<lambda>t. pf t \<noteq> None) (tl (split l))) \<and>
     ei' = foldl (\<lambda>d (w, i). AList.update w i d) ei (zip (first_words lines) [n..<n + length lines])"
proof (induction lines arbitrary: ei ev n)
  case Nil
  then show ?case by (simp add: first_words_def)
next
  case (Cons l lines)
  from Cons.prems obtain word vals where sp: "split l = word # vals"
    by (cases "split l") auto
  from Cons.prems sp obtain vector where av: "asarray pf vals = Some vector"
    by (cases "asarray pf vals") auto
  from av have ok: "list_all (\<lambda>t. pf t \<noteq> None) vals" and vec: "vector = map (\<lambda>t. the (pf t)) vals"
    by (auto simp: asarray_def split: if_splits)
  from Cons.prems sp av
  have rec: "load_loop pf lines (AList.update word n ei, ev @ [vector], n + 1) = Inr (ei', ev', n')"
    by simp
  note IH = Cons.IH [OF rec]
  have "[n..<Suc (n + length lines)] = n # [Suc n..<Suc (n + length lines)]"
    by (rule upt_conv_Cons) simp
  then have z: "zip (first_words (l # lines)) [n..<n + length (l # lines)] =
           (word, n) # zip (first_words lines) [n + 1..<n + 1 + length lines]"
    using sp by (simp add: first_words_def del: upt_Suc)
  show ?case
    using IH sp ok vec unfolding z by simp
qed

lemma set_update_subset: "set (AList.update k v al) \<subseteq> insert (k, v) (set al)"
  by (induction al) auto

lemma foldl_update_values:
  "length ws = length ns \<Longrightarrow> (w, i) \<in> set (foldl (\<lambda>d (w, i). AList.update w i d) ei (zip ws ns)) \<Longrightarrow>
     (w, i) \<in> set ei \<or> i \<in> set ns"
proof (induction ws ns arbitrary: ei rule: list_induct2)
  case Nil
  then show ?case by simp
next
  case (Cons x xs y ys)
  from Cons.prems Cons.IH [of "AList.update x y ei"]
  have "(w, i) \<in> set (AList.update x y ei) \<or> i \<in> set ys" by simp
  then show ?case
    using set_update_subset [of x y ei] by auto
qed

lemma foldl_update_distinct:
  "length ws = length ns \<Longrightarrow> distinct ws \<Longrightarrow> set ws \<inter> fst ` set ei = {} \<Longrightarrow>
     foldl (\<lambda>d (w, i). AList.update w i d) ei (zip ws ns) = ei @ zip ws ns"
proof (induction ws ns arbitrary: ei rule: list_induct2)
  case Nil
  then show ?case by simp
next
  case (Cons x xs y ys)
  have u: "AList.update x y ei = ei @ [(x, y)]"
    using Cons.prems by (intro update_fresh) auto
  have "set xs \<inter> fst ` set (ei @ [(x, y)]) = {}"
    using Cons.prems by auto
  with Cons.IH [of "ei @ [(x, y)]"] Cons.prems u show ?case by simp
qed

lemma foldl_update_dom:
  "length ws = length ns \<Longrightarrow>
     fst ` set (foldl (\<lambda>d (w, i). AList.update w i d) ei (zip ws ns)) = fst ` set ei \<union> set ws"
proof (induction ws ns arbitrary: ei rule: list_induct2)
  case Nil
  then show ?case by simp
next
  case (Cons x xs y ys)
  show ?case using Cons.IH [of "AList.update x y ei"] by (auto simp: dom_update)
qed

lemma vstack_Inr: "vstack vs = Inr m \<Longrightarrow> m = vs \<and> vs \<noteq> [] \<and> list_all (\<lambda>r. length (hd vs) = length r) vs"
  by (cases vs) (auto simp: vstack_def list_all_iff split: if_splits)

lemma vstack_Inl: "vstack vs = Inl e \<Longrightarrow> e = ValueError"
  by (cases vs) (auto simp: vstack_def split: if_splits)

lemma load_Inr:
  assumes "load pf lines = Inr g"
  shows "glove_embeddings g = map (\<lambda>l. map (\<lambda>t. the (pf t)) (tl (split l))) lines"
    and "embeddings_index g =
           foldl (\<lambda>d (w, i). AList.update w i d) [] (zip (first_words lines) [0..<length lines])"
    and "wf_glove g"
    and "\<forall>l\<in>set lines. split l \<noteq> [] \<and> list_all (\<lambda>t. pf t \<noteq> None) (tl (split l))"
proof -
  from assms obtain ei ev n where ll: "load_loop pf lines ([], [], 0) = Inr (ei, ev, n)"
    by (auto simp: load_def split: sum.splits)
  from assms ll obtain m where vs: "vstack ev = Inr m"
    by (auto simp: load_def split: sum.splits)
  from assms ll vs have g: "g = \<lparr>embeddings_index = ei, inv_index = map (\<lambda>(k, v). (v, k)) ei,
      glove_embeddings = m, glove_embeddings_normed = map (\<lambda>row. vdiv row (l2norm row)) m\<rparr>"
    by (simp add: load_def)
  from load_loop_Inr [OF ll]
  have ev: "ev = map (\<lambda>l. map (\<lambda>t. the (pf t)) (tl (split l))) lines"
    and ei: "ei = foldl (\<lambda>d (w, i). AList.update w i d) [] (zip (first_words lines) [0..<length lines])"
    and ok: "\<forall>l\<in>set lines. split l \<noteq> [] \<and> list_all (\<lambda>t. pf t \<noteq> None) (tl (split l))"
    by simp_all
  from vstack_Inr [OF vs]
  have m: "m = ev" and ne: "ev \<noteq> []" and same: "list_all (\<lambda>r. length (hd ev) = length r) ev"
    by simp_all
  show "glove_embeddings g = map (\<lambda>l. map (\<lambda>t. the (pf t)) (tl (split l))) lines"
    by (simp add: g m ev)
  show "embeddings_index g =
           foldl (\<lambda>d (w, i). AList.update w i d) [] (zip (first_words lines) [0..<length lines])"
    by (simp add: g ei)
  show "\<forall>l\<in>set lines. split l \<noteq> [] \<and> list_all (\<lambda>t. pf t \<noteq> None) (tl (split l))"
    by (rule ok)
  have len: "length ev = length lines" by (simp add: ev)
  have rng: "list_all (\<lambda>(w, i). i < length ev) ei"
    unfolding list_all_iff
  proof (clarify)
    fix w i assume "(w, i) \<in> set ei"
    then have "(w, i) \<in> set (foldl (\<lambda>d (w, i). AList.update w i d) [] (zip (first_words lines) [0..<length lines]))"
      by (simp only: ei)
    from foldl_update_values [OF _ this] show "i < length ev"
      by (simp add: first_words_def len)
  qed
  show "wf_glove g"
    unfolding wf_glove_def using ne same rng by (simp add: g m)
qed

lemma load_length: "load pf lines = Inr g \<Longrightarrow> length (glove_embeddings g) = length lines"
  using load_Inr(1) [of pf lines g] by simp

lemma load_distinct:
  assumes "load pf lines = Inr g" "distinct (first_words lines)"
  shows "embeddings_index g = zip (first_words lines) [0..<length lines]"
    and "inv_index g = zip [0..<length lines] (first_words lines)"
proof -
  show e: "embeddings_index g = zip (first_words lines) [0..<length lines]"
    using foldl_update_distinct [of "first_words lines" "[0..<length lines]" "[]"] assms(2)
      load_Inr(2) [OF assms(1)]
    by (simp add: first_words_def)
  have "inv_index g = map (\<lambda>(k, v). (v, k)) (embeddings_index g)"
    using load_Inr(3) [OF assms(1)] by (simp add: wf_glove_def)
  then show "inv_index g = zip [0..<length lines] (first_words lines)"
    unfolding e by (simp add: zip_commute [of "[0..<length lines]"] case_prod_unfold)
qed

lemma wf_known:
  assumes "wf_glove g" "map_of (embeddings_index g) w = Some i"
  shows "get_emb g w = Inr (Some (glove_embeddings g ! i))"
    and "get_normed_emb g w = Inr (Some (glove_embeddings_normed g ! i))"
    and "i < length (glove_embeddings g)"
    and "length (hd (glove_embeddings g)) = length (glove_embeddings g ! i)"
proof -
  from assms(2) have "(w, i) \<in> set (embeddings_index g)" by (rule map_of_SomeD)
  with assms(1) show i: "i < length (glove_embeddings g)"
    by (auto simp: wf_glove_def list_all_iff)
  then show "get_emb g w = Inr (Some (glove_embeddings g ! i))"
    using assms(2) by (simp add: get_emb_def)
  show "get_normed_emb g w = Inr (Some (glove_embeddings_normed g ! i))"
    using assms i by (simp add: get_normed_emb_def wf_glove_def)
  show "length (hd (glove_embeddings g)) = length (glove_embeddings g ! i)"
    using assms(1) i by (auto simp: wf_glove_def list_all_iff)
qed

lemma get_emb_unknown: "\<not> known g w \<Longrightarrow> get_emb g w = Inr None"
  by (simp add: known_def get_emb_def)

section \<open>The query vector\<close>

lemma length_foldl_map2:
  "\<forall>v\<in>set vs. length v = length a \<Longrightarrow> length (foldl (\<lambda>acc v. map2 fadd acc v) a vs) = length a"
  by (induction vs arbitrary: a) auto

lemma nth_foldl_map2:
  "\<forall>v\<in>set vs. length v = length a \<Longrightarrow> j < length a \<Longrightarrow>
     foldl (\<lambda>acc v. map2 fadd acc v) a vs ! j = foldl fadd (a ! j) (map (\<lambda>v. v ! j) vs)"
  by (induction vs arbitrary: a) auto

lemma sum_embs_Arr:
  "map (get_emb g) ws = map (\<lambda>v. Inr (Some v)) vs \<Longrightarrow> \<forall>v\<in>set vs. length v = length a \<Longrightarrow>
     sum_embs g (Arr a) ws = Inr (Arr (foldl (\<lambda>acc v. map2 fadd acc v) a vs))"
proof (induction ws arbitrary: a vs)
  case Nil
  then show ?case by simp
next
  case (Cons w ws)
  then obtain v vs' where vs: "vs = v # vs'" by (cases vs) auto
  with Cons.prems have "get_emb g w = Inr (Some v)" "map (get_emb g) ws = map (\<lambda>v. Inr (Some v)) vs'"
    "length v = length a" "\<forall>u\<in>set vs'. length u = length (map2 fadd a v)"
    by auto
  with Cons.IH [of vs' "map2 fadd a v"] vs show ?case by simp
qed

lemma sum_embs_vsum:
  assumes "map (get_emb g) ws = map (\<lambda>v. Inr (Some v)) vs" "ws \<noteq> []"
    and "\<forall>v\<in>set vs. length v = d"
  shows "sum_embs g (Scalar (Fin 0)) ws = Inr (Arr (vsum vs))" and "length (vsum vs) = d"
proof -
  from assms obtain w ws' v vs' where ws: "ws = w # ws'" and vs: "vs = v # vs'"
    by (cases ws; cases vs) auto
  from assms ws vs have gw: "get_emb g w = Inr (Some v)"
    and rest: "map (get_emb g) ws' = map (\<lambda>v. Inr (Some v)) vs'"
    and len: "\<forall>u\<in>set vs'. length u = length v" and d: "length v = d"
    by auto
  have len0: "\<forall>u\<in>set vs'. length u = length (map (fadd (Fin 0)) v)"
    using len by simp
  have "sum_embs g (Scalar (Fin 0)) ws = sum_embs g (Arr (map (fadd (Fin 0)) v)) ws'"
    by (simp add: ws gw)
  also have "\<dots> = Inr (Arr (foldl (\<lambda>acc v. map2 fadd acc v) (map (fadd (Fin 0)) v) vs'))"
    using rest len0 by (rule sum_embs_Arr)
  also have "foldl (\<lambda>acc v. map2 fadd acc v) (map (fadd (Fin 0)) v) vs' = vsum vs"
  proof (rule nth_equalityI)
    show "length (foldl (\<lambda>acc v. map2 fadd acc v) (map (fadd (Fin 0)) v) vs') = length (vsum vs)"
      using len0 by (simp add: length_foldl_map2 vsum_def vs)
  next
    fix j assume "j < length (foldl (\<lambda>acc v. map2 fadd acc v) (map (fadd (Fin 0)) v) vs')"
    then have j: "j < length (map (fadd (Fin 0)) v)" using len0 by (simp add: length_foldl_map2)
    then have "foldl (\<lambda>acc v. map2 fadd acc v) (map (fadd (Fin 0)) v) vs' ! j =
               foldl fadd (map (fadd (Fin 0)) v ! j) (map (\<lambda>v. v ! j) vs')"
      using len0 by (intro nth_foldl_map2)
    also have "\<dots> = vsum vs ! j"
      using j by (simp add: vsum_def vs fsum_def)
    finally show "foldl (\<lambda>acc v. map2 fadd acc v) (map (fadd (Fin 0)) v) vs' ! j = vsum vs ! j" .
  qed
  finally show "sum_embs g (Scalar (Fin 0)) ws = Inr (Arr (vsum vs))" .
  show "length (vsum vs) = d" using d by (simp add: vsum_def vs)
qed

lemma known_vectors:
  assumes "wf_glove g" "list_all (known g) ws"
  shows "\<exists>vs. map (get_emb g) ws = map (\<lambda>v. Inr (Some v)) vs \<and>
              (\<forall>v\<in>set vs. length v = length (hd (glove_embeddings g)))"
  using assms(2)
proof (induction ws)
  case Nil
  then show ?case by simp
next
  case (Cons w ws)
  then obtain vs where vs: "map (get_emb g) ws = map (\<lambda>v. Inr (Some v)) vs"
      "\<forall>v\<in>set vs. length v = length (hd (glove_embeddings g))"
    by auto
  from Cons.prems obtain i where i: "map_of (embeddings_index g) w = Some i"
    by (auto simp: known_def)
  from wf_known [OF assms(1) i] vs
  have "map (get_emb g) (w # ws) = map (\<lambda>v. Inr (Some v)) (glove_embeddings g ! i # vs) \<and>
        (\<forall>v\<in>set (glove_embeddings g ! i # vs). length v = length (hd (glove_embeddings g)))"
    by simp
  then show ?case by blast
qed

lemma query_vector_known:
  assumes "wf_glove g" "list_all (known g) (query_words q)" "query_words q \<noteq> []"
  shows "\<exists>v. query_vector g q = Inr (Some (Arr v)) \<and> length v = length (hd (glove_embeddings g))"
proof (cases q)
  case (Single w)
  with assms(2) obtain i where i: "map_of (embeddings_index g) w = Some i"
    by (auto simp: known_def)
  from wf_known [OF assms(1) i] Single show ?thesis
    by (simp add: query_vector_def)
next
  case (Multi ws)
  with assms have k: "list_all (known g) ws" and ne: "ws \<noteq> []" by simp_all
  from known_vectors [OF assms(1) k] obtain vs where
    vs: "map (get_emb g) ws = map (\<lambda>v. Inr (Some v)) vs"
        "\<forall>v\<in>set vs. length v = length (hd (glove_embeddings g))"
    by blast
  from sum_embs_vsum [OF vs(1) ne vs(2)] Multi show ?thesis
    by (simp add: query_vector_def)
qed

lemma sum_embs_unknown:
  assumes "wf_glove g" "\<exists>w\<in>set ws. \<not> known g w"
    and "case q of Scalar s \<Rightarrow> True | Arr a \<Rightarrow> length a = length (hd (glove_embeddings g))"
  shows "sum_embs g q ws = Inl TypeError"
  using assms(2,3)
proof (induction ws arbitrary: q)
  case Nil
  then show ?case by simp
next
  case (Cons w ws)
  show ?case
  proof (cases "known g w")
    case False
    then show ?thesis by (simp add: get_emb_unknown)
  next
    case True
    then obtain i where i: "map_of (embeddings_index g) w = Some i"
      by (auto simp: known_def)
    note K = wf_known [OF assms(1) i]
    from True Cons.prems have rest: "\<exists>w\<in>set ws. \<not> known g w" by auto
    show ?thesis
    proof (cases q)
      case (Scalar s)
      have "sum_embs g (Arr (map (fadd s) (glove_embeddings g ! i))) ws = Inl TypeError"
        using K(4) by (intro Cons.IH [OF rest]) simp
      then show ?thesis using Scalar K(1) by simp
    next
      case (Arr a)
      with Cons.prems have la: "length a = length (hd (glove_embeddings g))" by simp
      have "sum_embs g (Arr (map2 fadd a (glove_embeddings g ! i))) ws = Inl TypeError"
        using K(4) la by (intro Cons.IH [OF rest]) simp
      then show ?thesis using Arr K(1) K(4) la by simp
    qed
  qed
qed

section \<open>Ranking\<close>

lemma set_slice_to: "set (slice_to n xs) \<subseteq> set xs"
  by (auto simp: slice_to_def dest: in_set_takeD)

lemma length_slice_to_nonneg: "0 \<le> n \<Longrightarrow> length (slice_to n xs) = min (nat n) (length xs)"
  by (simp add: slice_to_def)

lemma slice_to_zero: "slice_to 0 xs = []"
  by (simp add: slice_to_def)

lemma cosines_of_wf:
  assumes "wf_glove g" "length q = length (hd (glove_embeddings g))"
  shows "cosines_of g q = Inr (map (\<lambda>row. dot row q) (glove_embeddings_normed g))"
proof -
  have "list_all (\<lambda>row. length row = length q) (glove_embeddings_normed g)"
    using assms by (auto simp: wf_glove_def list_all_iff vdiv_def)
  then show ?thesis by (simp add: cosines_of_def)
qed

lemma pretty_total:
  "\<forall>i\<in>set idxs. i < length cs \<and> map_of inv_idx i = Some (f i) \<Longrightarrow>
     pretty inv_idx cs idxs = Inr (map (\<lambda>i. (f i, cs ! i)) idxs)"
  by (induction idxs) auto

lemma pretty_Inl: "pretty inv_idx cs idxs = Inl e \<Longrightarrow> e = KeyError \<or> e = IndexError"
  by (induction idxs) (auto split: option.splits if_splits sum.splits)

lemma inv_index_distinct:
  assumes "load pf lines = Inr g" "distinct (first_words lines)" "i < length lines"
  shows "map_of (inv_index g) i = Some (first_words lines ! i)"
proof -
  have "map_of (zip [0..<length lines] (first_words lines)) ([0..<length lines] ! i) =
        Some (first_words lines ! i)"
    using assms(3) by (intro map_of_zip_nth) (simp_all add: first_words_def)
  then show ?thesis
    using assms(3) by (simp add: load_distinct(2) [OF assms(1,2)])
qed

lemma rank_Arr:
  assumes "wf_glove g" "length v = length (hd (glove_embeddings g))"
  shows "rank srt g (Some (Arr v)) topn =
           pretty (inv_index g) (map (\<lambda>row. dot row (vdiv v (l2norm v))) (glove_embeddings_normed g))
             (slice_to topn (rev (srt (map (\<lambda>row. dot row (vdiv v (l2norm v))) (glove_embeddings_normed g)))))"
proof -
  have "length (vdiv v (l2norm v)) = length (hd (glove_embeddings g))"
    using assms(2) by (simp add: vdiv_def)
  from cosines_of_wf [OF assms(1) this] show ?thesis
    by (simp add: rank_def)
qed

lemma argsort_idx:
  assumes "argsort_spec srt"
  shows "set (slice_to topn (rev (srt cs))) \<subseteq> {0..<length cs}"
proof -
  from assms have "set (srt cs) = {0..<length cs}" by (simp add: argsort_spec_def)
  then show ?thesis using set_slice_to [of topn "rev (srt cs)"] by auto
qed

lemma length_normed: "wf_glove g \<Longrightarrow> length (glove_embeddings_normed g) = length (glove_embeddings g)"
  by (simp add: wf_glove_def)

lemma rank_distinct:
  assumes "argsort_spec srt" "load pf lines = Inr g" "distinct (first_words lines)"
    and "length v = length (hd (glove_embeddings g))"
    and "cs = map (\<lambda>row. dot row (vdiv v (l2norm v))) (glove_embeddings_normed g)"
  shows "rank srt g (Some (Arr v)) topn =
           Inr (map (\<lambda>i. (first_words lines ! i, cs ! i)) (slice_to topn (rev (srt cs))))"
proof -
  note wf = load_Inr(3) [OF assms(2)]
  have len: "length cs = length lines"
    using length_normed [OF wf] load_length [OF assms(2)] by (simp add: assms(5))
  have "\<forall>i\<in>set (slice_to topn (rev (srt cs))). i < length cs \<and>
          map_of (inv_index g) i = Some (first_words lines ! i)"
  proof
    fix i assume "i \<in> set (slice_to topn (rev (srt cs)))"
    with argsort_idx [OF assms(1), of topn cs] have "i < length cs" by auto
    with len inv_index_distinct [OF assms(2,3), of i]
    show "i < length cs \<and> map_of (inv_index g) i = Some (first_words lines ! i)" by simp
  qed
  from pretty_total [OF this] rank_Arr [OF wf assms(4), of srt topn]
  show ?thesis by (simp add: assms(5))
qed

section \<open>Evaluating the rounding\<close>

lemma expo_from_numeral:
  "expo_from (numeral k) e a = (if 2 powi e \<le> a then e else expo_from (pred_numeral k) (e - 1) a)"
  by (simp add: numeral_eq_Suc)

lemmas round32_eval = round32_def expo_def expo_from_numeral round_even_def Let_def

lemma round32_values:
  "round32 0 = Fin 0" "round32 1 = Fin 1" "round32 (- 1) = Fin (- 1)"
  "round32 2 = Fin 2" "round32 4 = Fin 4" "round32 (1 / 2) = Fin (1 / 2)"
  by (simp_all add: round32_eval)

section \<open>Properties of the rounding\<close>

lemma p2_double: "(2::real) powi (e + 1) = 2 * 2 powi e"
  by (simp add: power_int_add)

lemma p2_le: "a \<le> b \<Longrightarrow> (2::real) powi a \<le> 2 powi b"
  by (rule power_int_increasing) simp_all

lemma expo_from_spec:
  "2 powi (e0 - int n) \<le> a \<Longrightarrow>
     2 powi (expo_from n e0 a) \<le> a \<and> e0 - int n \<le> expo_from n e0 a \<and> expo_from n e0 a \<le> e0 \<and>
     (a < 2 powi (expo_from n e0 a + 1) \<or> expo_from n e0 a = e0)"
proof (induction n arbitrary: e0)
  case 0
  then show ?case by simp
next
  case (Suc n)
  show ?case
  proof (cases "2 powi e0 \<le> a")
    case True
    then show ?thesis by simp
  next
    case False
    from Suc.prems have "2 powi (e0 - 1 - int n) \<le> a" by (simp add: algebra_simps)
    from Suc.IH [OF this] False show ?thesis by auto
  qed
qed

lemma expo_spec:
  assumes "2 powi (- 126) \<le> a"
  shows "2 powi (expo a) \<le> a" and "- 126 \<le> expo a" and "expo a \<le> 127"
    and "a < 2 powi (expo a + 1) \<or> expo a = 127"
  using expo_from_spec [of 127 253 a] assms by (simp_all add: expo_def)

lemma expo_from_found:
  "2 powi e \<le> a \<Longrightarrow> a < 2 powi (e + 1) \<Longrightarrow> e \<le> e0 \<Longrightarrow> e0 - int n \<le> e \<Longrightarrow> expo_from n e0 a = e"
proof (induction n arbitrary: e0)
  case 0
  then show ?case by simp
next
  case (Suc n)
  show ?case
  proof (cases "2 powi e0 \<le> a")
    case True
    have "e0 \<le> e"
    proof (rule ccontr)
      assume "\<not> e0 \<le> e"
      then have "e + 1 \<le> e0" by simp
      then have "(2::real) powi (e + 1) \<le> 2 powi e0" by (rule p2_le)
      with True Suc.prems(2) show False by simp
    qed
    with Suc.prems(3) True show ?thesis by simp
  next
    case False
    with Suc.prems(1) have "e \<noteq> e0" by auto
    with Suc.prems have "e \<le> e0 - 1" "e0 - 1 - int n \<le> e" by simp_all
    from Suc.IH [OF Suc.prems(1,2) this] False show ?thesis by simp
  qed
qed

lemma expo_found:
  "2 powi e \<le> a \<Longrightarrow> a < 2 powi (e + 1) \<Longrightarrow> - 126 \<le> e \<Longrightarrow> e \<le> 127 \<Longrightarrow> expo a = e"
  unfolding expo_def by (rule expo_from_found) simp_all

lemma expo_huge: "2 powi 127 \<le> a \<Longrightarrow> expo a = 127"
  by (simp add: expo_def numeral_eq_Suc)

lemma round_even_ge: "of_int m \<le> x \<Longrightarrow> m \<le> round_even x"
proof -
  assume "of_int m \<le> x"
  then have "m \<le> \<lfloor>x\<rfloor>" by (simp add: le_floor_iff)
  then show ?thesis by (simp add: round_even_def Let_def)
qed

lemma round_even_le: "x \<le> of_int m \<Longrightarrow> round_even x \<le> m"
proof -
  assume x: "x \<le> of_int m"
  then have f: "\<lfloor>x\<rfloor> \<le> m" by (simp add: floor_le_iff)
  show ?thesis
  proof (cases "x = of_int \<lfloor>x\<rfloor>")
    case True
    then have "x - of_int \<lfloor>x\<rfloor> = 0" by simp
    then show ?thesis using f by (simp add: round_even_def Let_def)
  next
    case False
    with of_int_floor_le [of x] have "of_int \<lfloor>x\<rfloor> < x" by linarith
    with x have "of_int \<lfloor>x\<rfloor> < (of_int m :: real)" by linarith
    then have "\<lfloor>x\<rfloor> < m" by simp
    then show ?thesis by (simp add: round_even_def Let_def)
  qed
qed

lemma round32_unfold:
  "round32 r =
     (if (2::real) powi 128 \<le> \<bar>of_int (round_even (r / 2 powi (expo \<bar>r\<bar> - 23))) * 2 powi (expo \<bar>r\<bar> - 23)\<bar>
      then (if 0 < r then PInf else NInf)
      else Fin (of_int (round_even (r / 2 powi (expo \<bar>r\<bar> - 23))) * 2 powi (expo \<bar>r\<bar> - 23)))"
  by (simp only: round32_def Let_def)

lemma round32_huge:
  assumes "2 powi 128 \<le> \<bar>r\<bar>"
  shows "\<not> is_fin (round32 r)"
proof -
  have "(2::real) powi 127 \<le> 2 powi 128" by (rule p2_le) simp
  with assms have e: "expo \<bar>r\<bar> = 127" by (intro expo_huge) simp
  have q: "(2::real) powi 128 = of_int (2 ^ 24) * 2 powi 104" by simp
  have "(2::real) powi 128 \<le> \<bar>of_int (round_even (r / 2 powi 104)) * 2 powi 104\<bar>"
  proof (cases "0 \<le> r")
    case True
    with assms have "2 powi 128 \<le> r" by simp
    then have "of_int (2 ^ 24) * 2 powi 104 \<le> r" by (simp only: q)
    then have "of_int (2 ^ 24) \<le> r / 2 powi 104" by (simp add: field_simps)
    then have "2 ^ 24 \<le> round_even (r / 2 powi 104)" by (rule round_even_ge)
    then have "(of_int (2 ^ 24) :: real) \<le> of_int (round_even (r / 2 powi 104))"
      by (simp only: of_int_le_iff)
    then have "of_int (2 ^ 24) * 2 powi 104 \<le> of_int (round_even (r / 2 powi 104)) * (2::real) powi 104"
      by (intro mult_right_mono) simp_all
    also have "\<dots> \<le> \<bar>of_int (round_even (r / 2 powi 104)) * (2::real) powi 104\<bar>" by (rule abs_ge_self)
    finally show ?thesis by (simp only: q)
  next
    case False
    with assms have "r \<le> - ((2::real) powi 128)" by simp
    then have "r \<le> - (of_int (2 ^ 24) * 2 powi 104)" by (simp only: q)
    then have "r / 2 powi 104 \<le> of_int (- (2 ^ 24))" by (simp add: field_simps)
    then have "round_even (r / 2 powi 104) \<le> - (2 ^ 24)" by (rule round_even_le)
    then have "(of_int (round_even (r / 2 powi 104)) :: real) \<le> of_int (- (2 ^ 24))"
      by (simp only: of_int_le_iff)
    then have "of_int (round_even (r / 2 powi 104)) * (2::real) powi 104 \<le> of_int (- (2 ^ 24)) * 2 powi 104"
      by (intro mult_right_mono) simp_all
    then have "of_int (2 ^ 24) * 2 powi 104 \<le> - (of_int (round_even (r / 2 powi 104)) * (2::real) powi 104)"
      by simp
    also have "\<dots> \<le> \<bar>of_int (round_even (r / 2 powi 104)) * (2::real) powi 104\<bar>" by (rule abs_ge_minus_self)
    finally show ?thesis by (simp only: q)
  qed
  moreover have "expo \<bar>r\<bar> - 23 = 104" using e by simp
  ultimately show ?thesis by (simp only: round32_unfold [of r]) simp
qed

lemma round32_double:
  assumes "2 powi (- 126) \<le> \<bar>r\<bar>" and "round32 (2 * r) = Fin y'"
  shows "round32 r = Fin (y' / 2)"
proof -
  note E = expo_spec [OF assms(1)]
  have small: "\<bar>r\<bar> < 2 powi 127"
  proof (rule ccontr)
    assume "\<not> \<bar>r\<bar> < 2 powi 127"
    then have "2 * 2 powi 127 \<le> \<bar>2 * r\<bar>" by simp
    then have "2 powi 128 \<le> \<bar>2 * r\<bar>" by simp
    from round32_huge [OF this] assms(2) show False by simp
  qed
  have lt: "\<bar>r\<bar> < 2 powi (expo \<bar>r\<bar> + 1)"
    using E(1,4) small by auto
  have le126: "expo \<bar>r\<bar> \<le> 126"
  proof (rule ccontr)
    assume "\<not> expo \<bar>r\<bar> \<le> 126"
    with E(3) have "expo \<bar>r\<bar> = 127" by simp
    with E(1) small show False by simp
  qed
  have "expo \<bar>2 * r\<bar> = expo \<bar>r\<bar> + 1"
  proof (rule expo_found)
    show "2 powi (expo \<bar>r\<bar> + 1) \<le> \<bar>2 * r\<bar>" using E(1) by (simp add: p2_double)
    have "(2::real) powi (expo \<bar>r\<bar> + 1 + 1) = 2 * 2 powi (expo \<bar>r\<bar> + 1)" by (rule p2_double)
    then show "\<bar>2 * r\<bar> < 2 powi (expo \<bar>r\<bar> + 1 + 1)" using lt by simp
    show "- 126 \<le> expo \<bar>r\<bar> + 1" using E(2) by simp
    show "expo \<bar>r\<bar> + 1 \<le> 127" using le126 by simp
  qed
  then have q: "2 powi (expo \<bar>2 * r\<bar> - 23) = 2 * (2::real) powi (expo \<bar>r\<bar> - 23)"
    using p2_double [of "expo \<bar>r\<bar> - 23"] by (simp add: algebra_simps)
  define n where "n = round_even (r / 2 powi (expo \<bar>r\<bar> - 23))"
  have arg: "2 * r / (2 * 2 powi (expo \<bar>r\<bar> - 23)) = r / 2 powi (expo \<bar>r\<bar> - 23)" by simp
  have "round32 (2 * r) =
      (if (2::real) powi 128 \<le> \<bar>of_int n * (2 * 2 powi (expo \<bar>r\<bar> - 23))\<bar>
       then (if 0 < 2 * r then PInf else NInf)
       else Fin (of_int n * (2 * 2 powi (expo \<bar>r\<bar> - 23))))"
    by (simp only: round32_unfold [of "2 * r"] q arg n_def)
  with assms(2) have y': "y' = of_int n * (2 * 2 powi (expo \<bar>r\<bar> - 23))"
    and nov: "\<not> (2::real) powi 128 \<le> \<bar>of_int n * (2 * 2 powi (expo \<bar>r\<bar> - 23))\<bar>"
    by (auto split: if_splits)
  have "\<bar>of_int n * 2 powi (expo \<bar>r\<bar> - 23)\<bar> \<le> \<bar>of_int n * (2 * (2::real) powi (expo \<bar>r\<bar> - 23))\<bar>"
    by (simp add: abs_mult)
  with nov have "\<not> (2::real) powi 128 \<le> \<bar>of_int n * (2::real) powi (expo \<bar>r\<bar> - 23)\<bar>" by linarith
  then have "round32 r = Fin (of_int n * 2 powi (expo \<bar>r\<bar> - 23))"
    by (simp only: round32_unfold [of r] n_def if_False)
  with y' show ?thesis by simp
qed

lemma round32_quad:
  assumes "2 powi (- 126) \<le> \<bar>r\<bar>" and "round32 (4 * r) = Fin y'"
  shows "round32 r = Fin (y' / 4)"
proof -
  have "2 powi (- 126) \<le> \<bar>2 * r\<bar>" using assms(1) by simp
  moreover have "round32 (2 * (2 * r)) = Fin y'" using assms(2) by simp
  ultimately have "round32 (2 * r) = Fin (y' / 2)" by (rule round32_double)
  from round32_double [OF assms(1) this] show ?thesis by simp
qed

lemma round32_zero: "round32 0 = Fin 0"
  by (simp add: round32_values)

lemma round32_lower:
  assumes "2 powi (- 126) \<le> r" and "round32 r = Fin y"
  shows "2 powi (- 126) \<le> y"
proof -
  have pos: "0 < r" using assms(1) zero_less_power_int [of "2::real" "- 126"] by linarith
  then have a: "\<bar>r\<bar> = r" by simp
  from assms(1) a have "2 powi (- 126) \<le> \<bar>r\<bar>" by simp
  note E = expo_spec [OF this]
  define q where "q = (2::real) powi (expo \<bar>r\<bar> - 23)"
  have qpos: "0 < q" by (simp add: q_def)
  have eq: "2 powi (expo \<bar>r\<bar>) = of_int (2 ^ 23) * q"
    using power_int_add [of "2::real" 23 "expo \<bar>r\<bar> - 23"] by (simp add: q_def)
  with E(1) a have "of_int (2 ^ 23) * q \<le> r" by simp
  then have "of_int (2 ^ 23) \<le> r / q" using qpos by (simp add: field_simps)
  then have "2 ^ 23 \<le> round_even (r / q)" by (rule round_even_ge)
  then have "(of_int (2 ^ 23) :: real) \<le> of_int (round_even (r / q))" by (simp only: of_int_le_iff)
  then have ge: "of_int (2 ^ 23) * q \<le> of_int (round_even (r / q)) * q"
    using qpos by (intro mult_right_mono) simp_all
  from assms(2) round32_unfold [of r] have y: "y = of_int (round_even (r / q)) * q"
    by (auto simp: q_def split: if_splits)
  have "(2::real) powi (- 126) \<le> 2 powi (expo \<bar>r\<bar>)" using E(2) by (rule p2_le)
  also have "\<dots> = of_int (2 ^ 23) * q" by (rule eq)
  also have "\<dots> \<le> of_int (round_even (r / q)) * q" by (rule ge)
  also have "\<dots> = y" by (simp only: y)
  finally show ?thesis .
qed

section \<open>Evaluation and the first properties\<close>

lemmas load_eval = load_def split_def is_space_def float_of_token_def unsigned_of_token_def
  digit_of_def asarray_def vstack_def vdiv_def l2norm_def fsum_def round32_values

lemmas query_eval = most_similar_def query_vector_def get_emb_def rank_def cosines_of_def
  dot_def fsum_def vdiv_def l2norm_def slice_to_def np_argsort_def round32_values

lemma example_load: "load float_of_token example_lines = Inr example_glove"
  by (simp add: example_lines_def example_glove_def load_eval round32_eval real_sqrt_unique)

lemma load_loop_Inl: "load_loop pf lines st = Inl e \<Longrightarrow>
  e = ValueError \<or> (e = IndexError \<and> (\<exists>l\<in>set lines. split l = []))"
proof (induction lines arbitrary: st)
  case Nil
  then show ?case by simp
next
  case (Cons l lines)
  obtain ei ev n where st: "st = (ei, ev, n)" by (cases st)
  show ?case
  proof (cases "split l")
    case Nil
    with Cons.prems st show ?thesis by simp
  next
    case (Cons word vals)
    show ?thesis
    proof (cases "asarray pf vals")
      case None
      with Cons Cons.prems st show ?thesis by simp
    next
      case (Some vector)
      with Cons Cons.prems st Cons.IH show ?thesis by auto
    qed
  qed
qed

lemma load_Inl: "load pf lines = Inl e \<Longrightarrow>
  e = ValueError \<or> (e = IndexError \<and> (\<exists>l\<in>set lines. split l = []))"
  by (auto simp: load_def split: sum.splits dest: load_loop_Inl vstack_Inl)

text \<open>
  Claim C2. When a word of the query, a single word or one of a list, is not in the
  vocabulary, \<^verbatim>\<open>most_similar\<close> raises before any ranking is made, and no absent
  word is skipped. The exception is Python's TypeError, from the arithmetic on the
  \<^verbatim>\<open>None\<close> that \<^verbatim>\<open>get_emb\<close> returned; the specification calls it UnknownWordError.
\<close>

theorem most_similar_unknown_word:
  assumes "load pf lines = Inr g" and "\<exists>w\<in>set (query_words q). \<not> known g w"
  shows "most_similar srt g q topn = Inl TypeError"
proof (cases q)
  case (Single w)
  with assms(2) have "get_emb g w = Inr None" by (simp add: get_emb_unknown)
  with Single show ?thesis by (simp add: most_similar_def query_vector_def rank_def)
next
  case (Multi ws)
  with assms(2) have "\<exists>w\<in>set ws. \<not> known g w" by simp
  from sum_embs_unknown [OF load_Inr(3) [OF assms(1)] this, of "Scalar (Fin 0)"] Multi
  show ?thesis by (simp add: most_similar_def query_vector_def)
qed

theorem most_similar_unknown_word_witness:
  "load float_of_token example_lines = Inr example_glove \<and>
   \<not> known example_glove ''unknownword'' \<and>
   most_similar np_argsort example_glove (Multi [''cat'', ''unknownword'']) 10 = Inl TypeError \<and>
   most_similar np_argsort example_glove (Single ''unknownword'') 10 = Inl TypeError"
  using most_similar_unknown_word [OF example_load, of "Multi [''cat'', ''unknownword'']" np_argsort 10]
    most_similar_unknown_word [OF example_load, of "Single ''unknownword''" np_argsort 10]
  by (simp add: example_load known_def example_glove_def)

text \<open>
  Claim C5. Loading fails, and gives no index, whenever a vector token of some line is
  not a float or two lines differ in their number of tokens. The exception is
  ValueError (from \<^verbatim>\<open>np.asarray\<close> or \<^verbatim>\<open>np.vstack\<close>), and IndexError only when
  a line has no token at all; the specification calls both ParseError.
\<close>

theorem load_malformed:
  assumes "(\<exists>l\<in>set lines. \<exists>t\<in>set (tl (split l)). pf t = None) \<or>
           (\<exists>l\<in>set lines. \<exists>l'\<in>set lines. length (split l) \<noteq> length (split l'))"
  shows "(load pf lines = Inl ValueError \<or> load pf lines = Inl IndexError) \<and>
         (load pf lines = Inl IndexError \<longrightarrow> (\<exists>l\<in>set lines. split l = []))"
proof (cases "load pf lines")
  case (Inl e)
  from load_Inl [OF Inl] Inl show ?thesis by auto
next
  case (Inr g)
  note ok = load_Inr(4) [OF Inr]
  have tok: "\<not> (\<exists>l\<in>set lines. \<exists>t\<in>set (tl (split l)). pf t = None)"
    using ok by (auto simp: list_all_iff)
  have rows: "glove_embeddings g = map (\<lambda>l. map (\<lambda>t. the (pf t)) (tl (split l))) lines"
    by (rule load_Inr(1) [OF Inr])
  have same: "\<forall>r\<in>set (glove_embeddings g). length (hd (glove_embeddings g)) = length r"
    using load_Inr(3) [OF Inr] by (simp add: wf_glove_def list_all_iff)
  have len: "length (split l) = Suc (length (hd (glove_embeddings g)))" if "l \<in> set lines" for l
  proof -
    from that have "map (\<lambda>t. the (pf t)) (tl (split l)) \<in> set (glove_embeddings g)"
      unfolding rows by simp
    with same have "length (hd (glove_embeddings g)) = length (tl (split l))" by fastforce
    moreover from ok that have "split l \<noteq> []" by simp
    ultimately show ?thesis by (cases "split l") simp_all
  qed
  have "\<not> (\<exists>l\<in>set lines. \<exists>l'\<in>set lines. length (split l) \<noteq> length (split l'))"
    by (simp add: len)
  with tok assms show ?thesis by blast
qed

theorem load_malformed_witness:
  "float_of_token ''x'' = None \<and>
   load float_of_token [''cat 1 0'', ''dog x 4''] = Inl ValueError \<and>
   load float_of_token [''cat 1 0'', ''dog 3''] = Inl ValueError \<and>
   load float_of_token [''cat 1 0'', '''', ''dog 3 4''] = Inl IndexError"
  using load_malformed [of "[''cat 1 0'', ''dog x 4'']" float_of_token]
    load_malformed [of "[''cat 1 0'', ''dog 3'']" float_of_token]
    load_malformed [of "[''cat 1 0'', '''', ''dog 3 4'']" float_of_token]
  by (simp add: load_eval)

section \<open>The lookups\<close>

text \<open>
  Claim C9 as stated fails for a row that holds an infinity: its norm is infinite, hence
  not zero, and the normalised row holds a NaN, so its norm is not 1.
\<close>

theorem normed_lookup_counterexample:
  "load float_of_token [''x inf 0''] = Inr inf_glove \<and>
   get_emb inf_glove ''x'' = Inr (Some [PInf, Fin 0]) \<and>
   l2norm [PInf, Fin 0] = PInf \<and>
   get_normed_emb inf_glove ''x'' = Inr (Some [NaN, Fin 0]) \<and>
   l2norm [NaN, Fin 0] = NaN"
  by (simp add: inf_glove_def load_eval get_emb_def get_normed_emb_def)

text \<open>
  Claim C9, amended. For a loaded index neither lookup raises; \<^verbatim>\<open>get_normed_emb\<close>
  returns \<^verbatim>\<open>None\<close> exactly when \<^verbatim>\<open>get_emb\<close> does; otherwise it returns the raw
  vector with every component divided by the norm of that vector, both computed in
  float32. Nothing is stated about the norm of the quotient.
\<close>

theorem normed_lookup:
  assumes "load pf lines = Inr g"
  shows "(get_normed_emb g w = Inr None \<longleftrightarrow> get_emb g w = Inr None) \<and>
         (\<exists>r. get_emb g w = Inr r) \<and> (\<exists>r. get_normed_emb g w = Inr r) \<and>
         (\<forall>v. get_emb g w = Inr (Some v) \<longrightarrow>
            get_normed_emb g w = Inr (Some (vdiv v (l2norm v))))"
proof (cases "map_of (embeddings_index g) w")
  case None
  then show ?thesis by (simp add: get_emb_def get_normed_emb_def)
next
  case (Some i)
  note wf = load_Inr(3) [OF assms]
  note K = wf_known [OF wf Some]
  have "glove_embeddings_normed g ! i = vdiv (glove_embeddings g ! i) (l2norm (glove_embeddings g ! i))"
    using wf K(3) by (simp add: wf_glove_def)
  then show ?thesis using K(1,2) by simp
qed

theorem normed_lookup_witness:
  "load float_of_token example_lines = Inr example_glove \<and>
   get_emb example_glove ''dog'' = Inr (Some [Fin 3, Fin 4]) \<and>
   l2norm [Fin 3, Fin 4] = Fin 5 \<and>
   get_normed_emb example_glove ''dog'' = Inr (Some (vdiv [Fin 3, Fin 4] (l2norm [Fin 3, Fin 4]))) \<and>
   vdiv [Fin 3, Fin 4] (l2norm [Fin 3, Fin 4]) = [Fin (10066330 / 2 ^ 24), Fin (13421773 / 2 ^ 24)] \<and>
   get_emb example_glove ''bird'' = Inr None \<and> get_normed_emb example_glove ''bird'' = Inr None"
proof -
  have g: "get_emb example_glove ''dog'' = Inr (Some [Fin 3, Fin 4])"
    by (simp add: get_emb_def example_glove_def)
  have n: "l2norm [Fin 3, Fin 4] = Fin 5"
    by (simp add: l2norm_def fsum_def round32_eval real_sqrt_unique)
  have d: "vdiv [Fin 3, Fin 4] (Fin 5) = [Fin (10066330 / 2 ^ 24), Fin (13421773 / 2 ^ 24)]"
    by (simp add: vdiv_def round32_eval)
  have b: "get_emb example_glove ''bird'' = Inr None"
    by (simp add: get_emb_def example_glove_def)
  from normed_lookup [OF example_load, of "''dog''"] normed_lookup [OF example_load, of "''bird''"] g n d b
  show ?thesis by (simp add: example_load)
qed

section \<open>A word given twice\<close>

lemma fadd_Fin_D: "fadd x y = Fin s \<Longrightarrow> is_fin x \<and> is_fin y"
  by (cases x; cases y) simp_all

lemma foldl_fadd_Fin_D: "foldl fadd a ys = Fin s \<Longrightarrow> is_fin a \<and> list_all is_fin ys"
proof (induction ys arbitrary: a)
  case Nil
  then show ?case by simp
next
  case (Cons y ys)
  from Cons.prems have "foldl fadd (fadd a y) ys = Fin s" by simp
  from Cons.IH [OF this] have "is_fin (fadd a y)" "list_all is_fin ys" by simp_all
  moreover from \<open>is_fin (fadd a y)\<close> obtain t where "fadd a y = Fin t"
    by (cases "fadd a y") simp_all
  ultimately show ?case using fadd_Fin_D [of a y t] by simp
qed

lemma fmul_self_fin: "is_fin (fmul x x) \<Longrightarrow> is_fin x"
  by (cases x) simp_all

lemma p63: "(2::real) powi (- 126) \<le> 2 powi (- 63)"
  by (rule p2_le) simp

lemma scalable_dbl:
  assumes "scalable x" and "is_fin (fadd (fadd (Fin 0) x) x)"
  shows "\<exists>r. x = Fin r \<and> (r = 0 \<or> 2 powi (- 63) \<le> \<bar>r\<bar>) \<and> fadd (fadd (Fin 0) x) x = Fin (2 * r)"
proof -
  from assms(1) obtain r where x: "x = Fin r" and rr: "round32 r = Fin r"
    and n: "r = 0 \<or> 2 powi (- 63) \<le> \<bar>r\<bar>"
    by (cases x) (simp_all add: scalable_def)
  have d: "fadd (fadd (Fin 0) x) x = round32 (2 * r)" by (simp add: x rr)
  with assms(2) obtain y' where y': "round32 (2 * r) = Fin y'" by (cases "round32 (2 * r)") simp_all
  have "y' = 2 * r"
  proof (cases "r = 0")
    case True
    with y' show ?thesis by (simp add: round32_zero)
  next
    case False
    with n p63 have "2 powi (- 126) \<le> \<bar>r\<bar>" by linarith
    from round32_double [OF this y'] rr show ?thesis by simp
  qed
  with x n d y' show ?thesis by simp
qed

lemma square_quad:
  assumes "r = 0 \<or> 2 powi (- 63) \<le> \<bar>r\<bar>" and "fmul (Fin (2 * r)) (Fin (2 * r)) = Fin t'"
  shows "fmul (Fin r) (Fin r) = Fin (t' / 4) \<and> (t' / 4 = 0 \<or> 2 powi (- 126) \<le> t' / 4)"
proof (cases "r = 0")
  case True
  with assms(2) show ?thesis by (simp add: round32_zero)
next
  case False
  with assms(1) have r: "2 powi (- 63) \<le> \<bar>r\<bar>" by simp
  have "(2::real) powi (- 126) = 2 powi (- 63) * 2 powi (- 63)"
    using power_int_add [of "2::real" "- 63" "- 63"] by simp
  also have "\<dots> \<le> \<bar>r\<bar> * \<bar>r\<bar>" using r by (intro mult_mono) simp_all
  finally have sq: "2 powi (- 126) \<le> r * r" by (simp add: abs_mult_self_eq)
  then have "2 powi (- 126) \<le> \<bar>r * r\<bar>" by simp
  moreover from assms(2) have "round32 (4 * (r * r)) = Fin t'" by (simp add: algebra_simps)
  ultimately have q: "round32 (r * r) = Fin (t' / 4)" by (rule round32_quad)
  from round32_lower [OF sq q] q show ?thesis by simp
qed

lemma sum_quad:
  assumes "a = 0 \<or> 2 powi (- 126) \<le> a" and "t = 0 \<or> 2 powi (- 126) \<le> t"
    and "fadd (Fin (4 * a)) (Fin (4 * t)) = Fin b'"
  shows "fadd (Fin a) (Fin t) = Fin (b' / 4) \<and> (b' / 4 = 0 \<or> 2 powi (- 126) \<le> b' / 4)"
proof (cases "a + t = 0")
  case True
  then have "4 * a + 4 * t = 0" by simp
  with assms(3) have "b' = 0" by (simp only: fadd.simps round32_zero) simp
  with True show ?thesis by (simp add: round32_zero)
next
  case False
  have pos: "(0::real) < 2 powi (- 126)" by simp
  from assms(1,2) pos have a0: "0 \<le> a" and t0: "0 \<le> t" by auto
  from False assms(1,2) a0 t0 have ge: "2 powi (- 126) \<le> a + t" by auto
  then have "2 powi (- 126) \<le> \<bar>a + t\<bar>" by simp
  moreover from assms(3) have "round32 (4 * (a + t)) = Fin b'" by (simp add: algebra_simps)
  ultimately have q: "round32 (a + t) = Fin (b' / 4)" by (rule round32_quad)
  from round32_lower [OF ge q] q show ?thesis by simp
qed

lemma sumsq_double:
  assumes "\<forall>x\<in>set xs. x = 0 \<or> 2 powi (- 63) \<le> \<bar>x\<bar>"
    and "a = 0 \<or> 2 powi (- 126) \<le> a"
    and "foldl fadd (Fin (4 * a)) (map (\<lambda>x. fmul (Fin (2 * x)) (Fin (2 * x))) xs) = Fin s'"
  shows "foldl fadd (Fin a) (map (\<lambda>x. fmul (Fin x) (Fin x)) xs) = Fin (s' / 4) \<and>
         (s' / 4 = 0 \<or> 2 powi (- 126) \<le> s' / 4)"
  using assms
proof (induction xs arbitrary: a)
  case Nil
  then have "s' / 4 = a" by simp
  with Nil.prems(2) show ?case by (simp only: foldl_Nil list.map)
next
  case (Cons x xs)
  from Cons.prems(3)
  have f: "foldl fadd (fadd (Fin (4 * a)) (fmul (Fin (2 * x)) (Fin (2 * x))))
             (map (\<lambda>x. fmul (Fin (2 * x)) (Fin (2 * x))) xs) = Fin s'"
    by simp
  from foldl_fadd_Fin_D [OF this] obtain b' where
    b': "fadd (Fin (4 * a)) (fmul (Fin (2 * x)) (Fin (2 * x))) = Fin b'"
    by (cases "fadd (Fin (4 * a)) (fmul (Fin (2 * x)) (Fin (2 * x)))") simp_all
  from fadd_Fin_D [OF this] obtain t' where t': "fmul (Fin (2 * x)) (Fin (2 * x)) = Fin t'"
    by (cases "fmul (Fin (2 * x)) (Fin (2 * x))") simp_all
  from Cons.prems(1) have "x = 0 \<or> 2 powi (- 63) \<le> \<bar>x\<bar>" by simp
  from square_quad [OF this t'] have
    t: "fmul (Fin x) (Fin x) = Fin (t' / 4)" "t' / 4 = 0 \<or> 2 powi (- 126) \<le> t' / 4"
    by simp_all
  from b' t' have "fadd (Fin (4 * a)) (Fin (4 * (t' / 4))) = Fin b'" by simp
  from sum_quad [OF Cons.prems(2) t(2) this] have
    b: "fadd (Fin a) (Fin (t' / 4)) = Fin (b' / 4)" "b' / 4 = 0 \<or> 2 powi (- 126) \<le> b' / 4"
    by simp_all
  from f b' have "foldl fadd (Fin (4 * (b' / 4))) (map (\<lambda>x. fmul (Fin (2 * x)) (Fin (2 * x))) xs) = Fin s'"
    by simp
  from Cons.IH [OF _ b(2) this] Cons.prems(1) t(1) b(1) show ?case by simp
qed

lemma sqrt_p126: "sqrt (2 powi (- 126)) = 2 powi (- 63)"
proof (rule real_sqrt_unique)
  show "(2 powi (- 63))\<^sup>2 = (2::real) powi (- 126)"
    using power_int_add [of "2::real" "- 63" "- 63"] by (simp add: power2_eq_square)
  show "(0::real) \<le> 2 powi (- 63)" by simp
qed

lemma fsqrt_Fin_D: "fsqrt z = Fin n \<Longrightarrow> \<exists>s. z = Fin s \<and> 0 \<le> s \<and> round32 (sqrt s) = Fin n"
  by (cases z) (auto split: if_splits)

lemma fdiv_double: "fdiv (Fin (2 * r)) (Fin n') = fdiv (Fin r) (Fin (n' / 2))"
  by (simp add: mult.commute)

lemma l2norm_double:
  assumes sc: "list_all scalable v" and u: "u = map (\<lambda>x. fadd (fadd (Fin 0) x) x) v"
    and fin: "l2norm u = Fin n'"
  shows "vdiv u (l2norm u) = vdiv v (l2norm v)"
proof -
  from fin obtain s' where s': "fsum (map (\<lambda>x. fmul x x) u) = Fin s'" "0 \<le> s'"
    and rt: "round32 (sqrt s') = Fin n'"
    unfolding l2norm_def by (auto dest: fsqrt_Fin_D)
  from s'(1) have "list_all is_fin (map (\<lambda>x. fmul x x) u)"
    unfolding fsum_def by (auto dest: foldl_fadd_Fin_D)
  then have ufin: "\<forall>x\<in>set u. is_fin x"
    by (auto simp: list_all_iff intro: fmul_self_fin)
  define xs where "xs = map (\<lambda>x. case x of Fin r \<Rightarrow> r | _ \<Rightarrow> 0) v"
  have each: "x = Fin (case x of Fin r \<Rightarrow> r | _ \<Rightarrow> 0) \<and>
      ((case x of Fin r \<Rightarrow> r | _ \<Rightarrow> 0) = 0 \<or> 2 powi (- 63) \<le> \<bar>case x of Fin r \<Rightarrow> r | _ \<Rightarrow> 0\<bar>) \<and>
      fadd (fadd (Fin 0) x) x = Fin (2 * (case x of Fin r \<Rightarrow> r | _ \<Rightarrow> 0))"
    if "x \<in> set v" for x
  proof -
    from that sc have "scalable x" by (simp add: list_all_iff)
    moreover from that ufin u have "is_fin (fadd (fadd (Fin 0) x) x)" by auto
    ultimately obtain r where "x = Fin r" "r = 0 \<or> 2 powi (- 63) \<le> \<bar>r\<bar>"
      "fadd (fadd (Fin 0) x) x = Fin (2 * r)"
      using scalable_dbl by blast
    then show ?thesis by simp
  qed
  have v: "v = map Fin xs"
    unfolding xs_def using each by (simp add: map_idI)
  have u': "u = map (\<lambda>r. Fin (2 * r)) xs"
    unfolding xs_def u using each by simp
  have cond: "\<forall>r\<in>set xs. r = 0 \<or> 2 powi (- 63) \<le> \<bar>r\<bar>"
    unfolding xs_def using each by auto
  have "foldl fadd (Fin (4 * 0)) (map (\<lambda>r. fmul (Fin (2 * r)) (Fin (2 * r))) xs) = Fin s'"
    using s'(1) by (simp add: fsum_def u' comp_def)
  from sumsq_double [OF cond _ this]
  have s: "foldl fadd (Fin 0) (map (\<lambda>r. fmul (Fin r) (Fin r)) xs) = Fin (s' / 4)"
    and sn: "s' / 4 = 0 \<or> 2 powi (- 126) \<le> s' / 4"
    by simp_all
  have nv: "l2norm v = round32 (sqrt (s' / 4))"
    using s s'(2) by (simp add: l2norm_def fsum_def v comp_def)
  have dbl: "sqrt s' = 2 * sqrt (s' / 4)"
  proof -
    have "sqrt s' = sqrt (4 * (s' / 4))" by simp
    also have "\<dots> = sqrt 4 * sqrt (s' / 4)" by (rule real_sqrt_mult)
    finally show ?thesis by simp
  qed
  have n: "l2norm v = Fin (n' / 2)"
  proof (cases "s' / 4 = 0")
    case True
    with rt have "n' = 0" by (simp add: round32_zero)
    with True nv show ?thesis by (simp add: round32_zero)
  next
    case False
    with sn have "2 powi (- 126) \<le> s' / 4" by simp
    then have "sqrt (2 powi (- 126)) \<le> sqrt (s' / 4)" by (simp only: real_sqrt_le_iff)
    then have "2 powi (- 63) \<le> sqrt (s' / 4)" by (simp only: sqrt_p126)
    with p63 have "2 powi (- 126) \<le> sqrt (s' / 4)" by linarith
    moreover have "0 \<le> sqrt (s' / 4)" using s'(2) by simp
    ultimately have "2 powi (- 126) \<le> \<bar>sqrt (s' / 4)\<bar>" by simp
    moreover from rt dbl have "round32 (2 * sqrt (s' / 4)) = Fin n'" by simp
    ultimately have "round32 (sqrt (s' / 4)) = Fin (n' / 2)" by (rule round32_double)
    with nv show ?thesis by simp
  qed
  show ?thesis
    unfolding fin n unfolding v u' by (simp add: vdiv_def fdiv_double del: fdiv.simps)
qed

lemma map2_self: "map2 f v v = map (\<lambda>x. f x x) v"
  by (induction v) simp_all

lemma big_load:
  "load float_of_token [''big 300000000000000000000000000000000000000 0'', ''one 1 0''] = Inr big_glove"
  by (simp add: big_glove_def load_eval round32_eval)

text \<open>
  Claim C8 as stated fails by overflow. The doubled vector of \<^verbatim>\<open>big\<close> holds an
  infinity, its normalised form holds a NaN, and every score of the list query is NaN;
  the single word is normalised to the zero vector and every score is 0.
\<close>

theorem most_similar_twice_counterexample:
  "load float_of_token [''big 300000000000000000000000000000000000000 0'', ''one 1 0''] = Inr big_glove \<and>
   known big_glove ''big'' \<and>
   most_similar np_argsort big_glove (Single ''big'') 10 = Inr [(''one'', Fin 0), (''big'', Fin 0)] \<and>
   most_similar np_argsort big_glove (Multi [''big'', ''big'']) 10 = Inr [(''one'', NaN), (''big'', NaN)]"
  by (simp add: big_load known_def) (simp add: big_glove_def query_eval round32_eval)

text \<open>
  Claim C8, amended. For a word of the vocabulary whose vector has only scalable
  entries, and for which the norm of the doubled vector is finite (the doubling and its
  squares do not overflow), \<^verbatim>\<open>most_similar\<close> returns for the list that holds the word
  twice the same sequence as for the word alone, for every index, argsort and
  \<^verbatim>\<open>topn\<close>: doubling is exact in float32, the norm doubles, and the quotients agree.
\<close>

theorem most_similar_twice:
  assumes "get_emb g w = Inr (Some v)" and "list_all scalable v"
    and "query_vector g (Multi [w, w]) = Inr (Some (Arr u))" and "is_fin (l2norm u)"
  shows "most_similar srt g (Multi [w, w]) topn = most_similar srt g (Single w) topn"
proof -
  have "query_vector g (Multi [w, w]) = Inr (Some (Arr (map (\<lambda>x. fadd (fadd (Fin 0) x) x) v)))"
    using assms(1) by (simp add: query_vector_def zip_map1 map2_self comp_def)
  with assms(3) have u: "u = map (\<lambda>x. fadd (fadd (Fin 0) x) x) v" by simp
  from assms(4) obtain n' where "l2norm u = Fin n'" by (cases "l2norm u") simp_all
  from l2norm_double [OF assms(2) u this] have "vdiv u (l2norm u) = vdiv v (l2norm v)" .
  moreover have "query_vector g (Single w) = Inr (Some (Arr v))"
    using assms(1) by (simp add: query_vector_def)
  ultimately show ?thesis
    using assms(3) by (simp add: most_similar_def rank_def)
qed

theorem most_similar_twice_witness:
  "get_emb example_glove ''cat'' = Inr (Some [Fin 1, Fin 0]) \<and>
   list_all scalable [Fin 1, Fin 0] \<and>
   query_vector example_glove (Multi [''cat'', ''cat'']) = Inr (Some (Arr [Fin 2, Fin 0])) \<and>
   l2norm [Fin 2, Fin 0] = Fin 2 \<and>
   most_similar np_argsort example_glove (Multi [''cat'', ''cat'']) 2 =
     Inr [(''cat'', Fin 1), (''dog'', Fin (10066330 / 2 ^ 24))] \<and>
   most_similar np_argsort example_glove (Single ''cat'') 2 =
     Inr [(''cat'', Fin 1), (''dog'', Fin (10066330 / 2 ^ 24))]"
proof -
  have g: "get_emb example_glove ''cat'' = Inr (Some [Fin 1, Fin 0])"
    by (simp add: get_emb_def example_glove_def)
  have s: "list_all scalable [Fin 1, Fin 0]"
    by (simp add: scalable_def round32_values)
  have q: "query_vector example_glove (Multi [''cat'', ''cat'']) = Inr (Some (Arr [Fin 2, Fin 0]))"
    by (simp add: query_vector_def get_emb_def example_glove_def round32_values)
  have n: "l2norm [Fin 2, Fin 0] = Fin 2"
    by (simp add: l2norm_def fsum_def round32_values)
  have f: "is_fin (l2norm [Fin 2, Fin 0])" by (simp add: n)
  have "most_similar np_argsort example_glove (Single ''cat'') 2 =
          Inr [(''cat'', Fin 1), (''dog'', Fin (10066330 / 2 ^ 24))]"
    by (simp add: example_glove_def query_eval round32_eval)
  with most_similar_twice [OF g s q f, of np_argsort 2] g s q n show ?thesis by simp
qed

section \<open>The sum of the query words, and a repeated word\<close>

lemma get_emb_SomeD:
  assumes "wf_glove g" "get_emb g w = Inr (Some v)"
  shows "length v = length (hd (glove_embeddings g))"
proof -
  from assms(2) obtain i where i: "map_of (embeddings_index g) w = Some i"
    by (auto simp: get_emb_def split: option.splits)
  from wf_known [OF assms(1) i] assms(2) show ?thesis by simp
qed

text \<open>
  Claim C7 as stated fails: for the words \<^verbatim>\<open>cat\<close> and \<^verbatim>\<open>car\<close> of the example file the
  vector that reaches the normalisation is the sum \<open>[1, 1]\<close>, and the average of the
  two raw vectors is \<open>[1/2, 1/2]\<close>.
\<close>

theorem query_vector_sum_counterexample:
  "load float_of_token example_lines = Inr example_glove \<and>
   get_emb example_glove ''cat'' = Inr (Some [Fin 1, Fin 0]) \<and>
   get_emb example_glove ''car'' = Inr (Some [Fin 0, Fin 1]) \<and>
   query_vector example_glove (Multi [''cat'', ''car'']) = Inr (Some (Arr [Fin 1, Fin 1])) \<and>
   spec_average [[Fin 1, Fin 0], [Fin 0, Fin 1]] = [Fin (1 / 2), Fin (1 / 2)]"
  by (simp add: example_load example_glove_def get_emb_def query_vector_def spec_average_def
      vsum_def fsum_def vdiv_def upt_rec round32_values)

text \<open>
  Claim C7, amended. For a list of \<open>k \<ge> 1\<close> words of the vocabulary, the vector that
  \<^verbatim>\<open>most_similar\<close> builds before it normalises is the elementwise sum of the \<open>k\<close> raw
  vectors; it is not divided by \<open>k\<close>.
\<close>

theorem query_vector_sum:
  assumes "load pf lines = Inr g" and "ws \<noteq> []"
    and "map (get_emb g) ws = map (\<lambda>v. Inr (Some v)) vs"
  shows "query_vector g (Multi ws) = Inr (Some (Arr (vsum vs)))"
proof -
  note wf = load_Inr(3) [OF assms(1)]
  have "\<forall>v\<in>set vs. length v = length (hd (glove_embeddings g))"
  proof
    fix v assume "v \<in> set vs"
    then obtain k where k: "k < length vs" "vs ! k = v" by (auto simp: in_set_conv_nth)
    from assms(3) have "length ws = length vs" by (metis length_map)
    with k assms(3) have "get_emb g (ws ! k) = Inr (Some v)"
      by (metis nth_map)
    from get_emb_SomeD [OF wf this] show "length v = length (hd (glove_embeddings g))" .
  qed
  from sum_embs_vsum(1) [OF assms(3,2) this] show ?thesis
    by (simp add: query_vector_def)
qed

theorem query_vector_sum_witness:
  "load float_of_token example_lines = Inr example_glove \<and>
   map (get_emb example_glove) [''cat'', ''dog''] = map (\<lambda>v. Inr (Some v)) [[Fin 1, Fin 0], [Fin 3, Fin 4]] \<and>
   query_vector example_glove (Multi [''cat'', ''dog'']) = Inr (Some (Arr (vsum [[Fin 1, Fin 0], [Fin 3, Fin 4]]))) \<and>
   vsum [[Fin 1, Fin 0], [Fin 3, Fin 4]] = [Fin 4, Fin 4]"
proof -
  have m: "map (get_emb example_glove) [''cat'', ''dog''] =
           map (\<lambda>v. Inr (Some v)) [[Fin 1, Fin 0], [Fin 3, Fin 4]]"
    by (simp add: get_emb_def example_glove_def)
  have v: "vsum [[Fin 1, Fin 0], [Fin 3, Fin 4]] = [Fin 4, Fin 4]"
    by (simp add: vsum_def fsum_def upt_rec round32_eval)
  from query_vector_sum [OF example_load _ m] example_load m v show ?thesis by simp
qed

text \<open>
  Claim C4 on a file that gives the word \<^verbatim>\<open>a\<close> on both of its lines: loading succeeds,
  the word gets the id 1 of its last line, the id 0 belongs to no word, and the matrix
  keeps two rows.
\<close>

theorem load_repeated_word:
  "load float_of_token [''a 1 0'', ''a 0 1''] = Inr dup_glove \<and>
   first_words [''a 1 0'', ''a 0 1''] = [''a'', ''a''] \<and>
   map_of (embeddings_index dup_glove) ''a'' = Some 1 \<and>
   map_of (inv_index dup_glove) 0 = None \<and>
   length (glove_embeddings dup_glove) = 2"
  by (simp add: dup_glove_def load_eval first_words_def)

text \<open>
  Claim C10 on the same file: the known word \<^verbatim>\<open>a\<close> is answered for \<^verbatim>\<open>topn = 1\<close>, and
  for \<^verbatim>\<open>topn = 2\<close> the row without a word makes \<^verbatim>\<open>inv_index[idx]\<close> raise KeyError.
\<close>

theorem most_similar_repeated_word:
  "load float_of_token [''a 1 0'', ''a 0 1''] = Inr dup_glove \<and>
   known dup_glove ''a'' \<and>
   most_similar np_argsort dup_glove (Single ''a'') 1 = Inr [(''a'', Fin 1)] \<and>
   most_similar np_argsort dup_glove (Single ''a'') 2 = Inl KeyError"
  by (simp add: dup_glove_def load_eval known_def query_eval)

section \<open>The reversed argsort\<close>


lemma length_argsort: "argsort_spec srt \<Longrightarrow> length (srt cs) = length cs"
proof -
  assume "argsort_spec srt"
  then have "distinct (srt cs)" "set (srt cs) = {0..<length cs}" by (simp_all add: argsort_spec_def)
  then show ?thesis by (metis distinct_card card_atLeastLessThan diff_zero)
qed


section \<open>Properties of the ranking\<close>

lemma fdiv_zero_not_fin: "\<not> is_fin (fdiv x (Fin 0))"
  by (cases x) simp_all

lemma most_similar_known:
  assumes "argsort_spec srt" "load pf lines = Inr g" "distinct (first_words lines)"
    and "list_all (known g) (query_words q)" "query_words q \<noteq> []"
  shows "\<exists>v. query_vector g q = Inr (Some (Arr v)) \<and>
             length v = length (hd (glove_embeddings g)) \<and>
             cosines_of g (vdiv v (l2norm v)) =
               Inr (map (\<lambda>row. dot row (vdiv v (l2norm v))) (glove_embeddings_normed g)) \<and>
             most_similar srt g q topn =
               Inr (map (\<lambda>i. (first_words lines ! i,
                              map (\<lambda>row. dot row (vdiv v (l2norm v))) (glove_embeddings_normed g) ! i))
                     (slice_to topn
                        (rev (srt (map (\<lambda>row. dot row (vdiv v (l2norm v))) (glove_embeddings_normed g))))))"
proof -
  note wf = load_Inr(3) [OF assms(2)]
  from query_vector_known [OF wf assms(4,5)] obtain v where
    v: "query_vector g q = Inr (Some (Arr v))" "length v = length (hd (glove_embeddings g))"
    by blast
  have "length (vdiv v (l2norm v)) = length (hd (glove_embeddings g))"
    using v(2) by (simp add: vdiv_def)
  note c = cosines_of_wf [OF wf this]
  from rank_distinct [OF assms(1,2,3) v(2) refl, of topn] v c show ?thesis
    by (simp add: most_similar_def)
qed

lemma length_cosines:
  "load pf lines = Inr g \<Longrightarrow> length (map (\<lambda>row. dot row q) (glove_embeddings_normed g)) = length lines"
  using length_normed [OF load_Inr(3)] load_length by simp

lemma distinct_example: "distinct (first_words example_lines)"
  by (simp add: first_words_def example_lines_def split_def is_space_def)

lemma zero_load: "load float_of_token [''zero 0 0'', ''one 1 0''] = Inr zero_glove"
  by (simp add: zero_glove_def load_eval)

text \<open>
  Claim C3 as stated fails: the word \<^verbatim>\<open>zero\<close> has the zero vector, whose norm is
  exactly zero, and \<^verbatim>\<open>most_similar\<close> returns a ranking with NaN scores instead of
  failing.
\<close>

theorem zero_norm_counterexample:
  "load float_of_token [''zero 0 0'', ''one 1 0''] = Inr zero_glove \<and>
   query_vector zero_glove (Single ''zero'') = Inr (Some (Arr [Fin 0, Fin 0])) \<and>
   l2norm [Fin 0, Fin 0] = Fin 0 \<and>
   most_similar np_argsort zero_glove (Single ''zero'') 10 = Inr [(''one'', NaN), (''zero'', NaN)]"
  by (simp add: zero_glove_def load_eval query_eval)

text \<open>
  Claim C3, amended. \<^verbatim>\<open>most_similar\<close> has no check of the norm. On an index loaded
  from a file of pairwise distinct words, every query of one or more known words is
  answered with a ranking, whether the norm of the query vector is zero or not; when
  the norm is exactly zero the division is carried out all the same, and every
  component of the normalised query is NaN or an infinity.
\<close>

theorem zero_norm_no_error:
  assumes "argsort_spec srt" and "load pf lines = Inr g" and "distinct (first_words lines)"
    and "list_all (known g) (query_words q)" and "query_words q \<noteq> []"
  shows "\<exists>v r. query_vector g q = Inr (Some (Arr v)) \<and> most_similar srt g q topn = Inr r \<and>
           (l2norm v = Fin 0 \<longrightarrow> (\<forall>x\<in>set (vdiv v (l2norm v)). \<not> is_fin x))"
proof -
  from most_similar_known [OF assms, of topn] obtain v where
    v: "query_vector g q = Inr (Some (Arr v))"
    and r: "\<exists>r. most_similar srt g q topn = Inr r"
    by blast
  have "\<forall>x\<in>set (vdiv v (l2norm v)). \<not> is_fin x" if "l2norm v = Fin 0"
    using that by (simp add: vdiv_def fdiv_zero_not_fin)
  with v r show ?thesis by blast
qed

theorem zero_norm_no_error_witness:
  "argsort_spec np_argsort \<and> load float_of_token [''zero 0 0'', ''one 1 0''] = Inr zero_glove \<and>
   distinct (first_words [''zero 0 0'', ''one 1 0'']) \<and> known zero_glove ''zero'' \<and>
   query_vector zero_glove (Single ''zero'') = Inr (Some (Arr [Fin 0, Fin 0])) \<and>
   l2norm [Fin 0, Fin 0] = Fin 0 \<and>
   (\<exists>r. most_similar np_argsort zero_glove (Single ''zero'') 10 = Inr r) \<and>
   list_all (\<lambda>x. \<not> is_fin x) (vdiv [Fin 0, Fin 0] (l2norm [Fin 0, Fin 0]))"
proof -
  have d: "distinct (first_words [''zero 0 0'', ''one 1 0''])"
    by (simp add: first_words_def split_def is_space_def)
  have k: "list_all (known zero_glove) (query_words (Single ''zero''))"
    by (simp add: known_def zero_glove_def)
  have q: "query_vector zero_glove (Single ''zero'') = Inr (Some (Arr [Fin 0, Fin 0]))"
    by (simp add: query_vector_def get_emb_def zero_glove_def)
  have n: "l2norm [Fin 0, Fin 0] = Fin 0"
    by (simp add: l2norm_def fsum_def round32_values)
  from zero_norm_no_error [OF np_argsort_spec zero_load d k, of 10] q n
  have "(\<exists>r. most_similar np_argsort zero_glove (Single ''zero'') 10 = Inr r) \<and>
        list_all (\<lambda>x. \<not> is_fin x) (vdiv [Fin 0, Fin 0] (l2norm [Fin 0, Fin 0]))"
    by (auto simp: list_all_iff)
  with np_argsort_spec zero_load d k q n show ?thesis by simp
qed

text \<open>
  Claim C1 as stated fails: the words \<^verbatim>\<open>a\<close> (id 0) and \<^verbatim>\<open>b\<close> (id 1) have the same
  vector, so both score 1 for the query \<^verbatim>\<open>a\<close>, and the word with the larger id comes
  first.
\<close>

theorem tie_order_counterexample:
  "load float_of_token [''a 1 0'', ''b 1 0''] = Inr tie_glove \<and>
   map_of (embeddings_index tie_glove) ''a'' = Some 0 \<and>
   map_of (embeddings_index tie_glove) ''b'' = Some 1 \<and>
   most_similar np_argsort tie_glove (Single ''a'') 10 = Inr [(''b'', Fin 1), (''a'', Fin 1)]"
  by (simp add: tie_glove_def load_eval query_eval)

text \<open>
  Claim C1, amended. On an index loaded from a file of \<open>N\<close> pairwise distinct words,
  for every query of one or more known words, \<^verbatim>\<open>most_similar\<close> computes all \<open>N\<close>
  scores and returns the first \<^verbatim>\<open>topn\<close> entries of a list that holds every id once, in
  non-increasing order of score (in numpy's order, where NaN is above every number).
  Equal scores come in the order that the reversed argsort leaves them in; nothing puts
  them in ascending order of id. The result is a function of its inputs.
\<close>

theorem most_similar_sorted:
  assumes "argsort_spec srt" and "load pf lines = Inr g" and "distinct (first_words lines)"
    and "list_all (known g) (query_words q)" and "query_words q \<noteq> []"
  shows "\<exists>v cs ids. query_vector g q = Inr (Some (Arr v)) \<and>
           cosines_of g (vdiv v (l2norm v)) = Inr cs \<and> length cs = length lines \<and>
           distinct ids \<and> set ids = {0..<length lines} \<and>
           sorted_wrt (\<lambda>i j. np_le (cs ! j) (cs ! i)) ids \<and>
           most_similar srt g q topn =
             Inr (map (\<lambda>i. (first_words lines ! i, cs ! i)) (slice_to topn ids))"
proof -
  from most_similar_known [OF assms, of topn] obtain v where
    v: "query_vector g q = Inr (Some (Arr v))"
    and c: "cosines_of g (vdiv v (l2norm v)) =
              Inr (map (\<lambda>row. dot row (vdiv v (l2norm v))) (glove_embeddings_normed g))"
    and r: "most_similar srt g q topn =
              Inr (map (\<lambda>i. (first_words lines ! i,
                             map (\<lambda>row. dot row (vdiv v (l2norm v))) (glove_embeddings_normed g) ! i))
                    (slice_to topn
                       (rev (srt (map (\<lambda>row. dot row (vdiv v (l2norm v))) (glove_embeddings_normed g))))))"
    by blast
  define cs where "cs = map (\<lambda>row. dot row (vdiv v (l2norm v))) (glove_embeddings_normed g)"
  have len: "length cs = length lines"
    unfolding cs_def using assms(2) by (rule length_cosines)
  from assms(1) have "distinct (rev (srt cs))" "set (rev (srt cs)) = {0..<length lines}"
    by (simp_all add: argsort_spec_def len)
  moreover from assms(1) have "sorted_wrt (\<lambda>i j. np_le (cs ! j) (cs ! i)) (rev (srt cs))"
    by (simp add: argsort_spec_def sorted_wrt_rev)
  ultimately show ?thesis
    using v c r len unfolding cs_def by blast
qed

theorem most_similar_sorted_witness:
  "argsort_spec np_argsort \<and> load float_of_token example_lines = Inr example_glove \<and>
   distinct (first_words example_lines) \<and> known example_glove ''cat'' \<and> known example_glove ''car'' \<and>
   (\<exists>v cs ids. query_vector example_glove (Multi [''cat'', ''car'']) = Inr (Some (Arr v)) \<and>
      cosines_of example_glove (vdiv v (l2norm v)) = Inr cs \<and> length cs = length example_lines \<and>
      distinct ids \<and> set ids = {0..<length example_lines} \<and>
      sorted_wrt (\<lambda>i j. np_le (cs ! j) (cs ! i)) ids \<and>
      most_similar np_argsort example_glove (Multi [''cat'', ''car'']) 2 =
        Inr (map (\<lambda>i. (first_words example_lines ! i, cs ! i)) (slice_to 2 ids)))"
proof -
  have k: "known example_glove ''cat''" "known example_glove ''car''"
    by (simp_all add: known_def example_glove_def)
  from most_similar_sorted [OF np_argsort_spec example_load distinct_example, of "Multi [''cat'', ''car'']" 2] k
  show ?thesis using np_argsort_spec example_load distinct_example by simp
qed

lemma map_of_zip_upt:
  assumes "map_of (zip ws [0..<length ws]) w = Some i"
  shows "i < length ws \<and> ws ! i = w"
proof -
  from assms have "(w, i) \<in> set (zip ws [0..<length ws])" by (rule map_of_SomeD)
  then obtain n where "n < length ws" "ws ! n = w" "[0..<length ws] ! n = i"
    by (auto simp: in_set_zip)
  then show ?thesis by simp
qed





section \<open>Files of pairwise distinct words\<close>

text \<open>
  When the words of the file are pairwise distinct, the word of line \<open>i\<close> has the id
  \<open>i\<close>, every id below the number of lines has its word, and nothing else is a key.
\<close>

lemma load_distinct_ids:
  assumes "load pf lines = Inr g" "distinct (first_words lines)"
  shows "\<forall>i<length lines. map_of (embeddings_index g) (first_words lines ! i) = Some i"
    and "\<forall>w i. map_of (embeddings_index g) w = Some i \<longrightarrow> i < length lines \<and> first_words lines ! i = w"
    and "\<forall>i<length lines. map_of (inv_index g) i = Some (first_words lines ! i)"
proof -
  note e = load_distinct(1) [OF assms]
  have l: "length (first_words lines) = length lines" by (simp add: first_words_def)
  show "\<forall>i<length lines. map_of (embeddings_index g) (first_words lines ! i) = Some i"
  proof (intro allI impI)
    fix i assume i: "i < length lines"
    have "map_of (zip (first_words lines) [0..<length lines]) (first_words lines ! i) =
          Some ([0..<length lines] ! i)"
      using assms(2) i l by (intro map_of_zip_nth) simp_all
    with i show "map_of (embeddings_index g) (first_words lines ! i) = Some i"
      by (simp add: e)
  qed
  show "\<forall>w i. map_of (embeddings_index g) w = Some i \<longrightarrow> i < length lines \<and> first_words lines ! i = w"
    using map_of_zip_upt [of "first_words lines"] by (simp add: e l)
  show "\<forall>i<length lines. map_of (inv_index g) i = Some (first_words lines ! i)"
    using inv_index_distinct [OF assms] by simp
qed

text \<open>
  For \<^verbatim>\<open>topn = 0\<close> every query of known words is answered with the empty list, on
  every loaded index; on a file of pairwise distinct words the answer for
  \<^verbatim>\<open>topn \<ge> 0\<close> has \<open>min topn N\<close> entries.
\<close>

lemma most_similar_topn_zero:
  assumes "load pf lines = Inr g" "list_all (known g) (query_words q)"
  shows "most_similar srt g q 0 = Inr []"
proof (cases "query_words q = []")
  case True
  then have "q = Multi []" by (cases q) simp_all
  then show ?thesis
    by (simp add: most_similar_def query_vector_def rank_def slice_to_zero)
next
  case False
  note wf = load_Inr(3) [OF assms(1)]
  from query_vector_known [OF wf assms(2) False] obtain v where
    "query_vector g q = Inr (Some (Arr v))" "length v = length (hd (glove_embeddings g))"
    by blast
  with rank_Arr [OF wf this(2), of srt 0] show ?thesis
    by (simp add: most_similar_def slice_to_zero)
qed

lemma most_similar_length:
  assumes "argsort_spec srt" "load pf lines = Inr g" "distinct (first_words lines)"
    and "list_all (known g) (query_words q)" "query_words q \<noteq> []" "0 \<le> topn"
  shows "\<exists>r. most_similar srt g q topn = Inr r \<and> length r = min (nat topn) (length lines)"
proof -
  from most_similar_known [OF assms(1-5), of topn] obtain v where
    "most_similar srt g q topn =
       Inr (map (\<lambda>i. (first_words lines ! i,
                      map (\<lambda>row. dot row (vdiv v (l2norm v))) (glove_embeddings_normed g) ! i))
             (slice_to topn
                (rev (srt (map (\<lambda>row. dot row (vdiv v (l2norm v))) (glove_embeddings_normed g))))))"
    by blast
  then show ?thesis
    using assms(6) length_cosines [OF assms(2)]
    by (simp add: length_slice_to_nonneg length_argsort [OF assms(1)])
qed

end
